theory Spec2Isabelle
  imports Main "HOL-Library.AList"
begin

section \<open>Data model of \<^verbatim>\<open>web/src/services/sipService.ts\<close>\<close>

text \<open>
  The service keeps a \<^verbatim>\<open>Map<string, any>\<close> from session identifiers to SIP.js session
  objects (\<^verbatim>\<open>Inviter\<close> for outgoing calls, \<^verbatim>\<open>Invitation\<close> for incoming ones). The objects
  are shared between the map, the closures registered as state-change listeners and the
  library, and \<^verbatim>\<open>getSessionId\<close> compares them by identity, so they live in an explicit
  store addressed by references. Media streams are shared in the same way.
\<close>

datatype SessionState = Initial | Establishing | Established | Terminating | Terminated

datatype RegistererState = RegInitial | Registered | Unregistered | RegTerminated

datatype UserAgentState = Started | Stopped

datatype session_class = Inviter | Invitation

type_synonym session_ref = nat
type_synonym stream_ref = nat

text \<open>A track of a media stream; \<open>stops\<close> counts the calls of \<^verbatim>\<open>track.stop()\<close>.\<close>

record MediaStreamTrack =
  audio :: bool
  enabled :: bool
  stops :: nat

text \<open>
  The service is written for SIP.js 0.21.2 (line 3 of the file), and the session objects
  are what that library provides. Of its session description handler the service reads
  \<^verbatim>\<open>localMediaStream\<close> and \<^verbatim>\<open>remoteMediaStream\<close>; both are getters without a setter. The
  handler has no \<^verbatim>\<open>localHold\<close>, \<^verbatim>\<open>hold\<close> or \<^verbatim>\<open>unhold\<close> member, and of the two session
  classes only \<^verbatim>\<open>Inviter\<close> has a \<^verbatim>\<open>cancel\<close> method.
\<close>

record SessionDescriptionHandler =
  localMediaStream :: "stream_ref option"
  remoteMediaStream :: "stream_ref option"

text \<open>
  The two closures the service registers with \<^verbatim>\<open>stateChange.addListener\<close>: the one of
  \<^verbatim>\<open>handleIncomingCall\<close> captures the session identifier, the one of
  \<^verbatim>\<open>setupSessionHandlers\<close> captures the optional local stream.
\<close>

datatype listener = IncomingListener string | SessionListener "stream_ref option"

record Session =
  cls :: session_class
  state :: SessionState
  remoteIdentity :: "string option"
  startTime :: "nat option"
  sessionDescriptionHandler :: "SessionDescriptionHandler option"
  stateChange :: "listener list"

record CallSession =
  id_cs :: string
  state_cs :: SessionState
  remoteIdentity_cs :: string
  startTime_cs :: nat
  localStream_cs :: "stream_ref option"
  remoteStream_cs :: "stream_ref option"

record SipConfig =
  server :: string
  username :: string
  password :: string
  domain :: string
  displayName :: "string option"

record CallOptions =
  audio_opt :: bool
  video_opt :: bool

text \<open>
  Thrown values: \<^verbatim>\<open>new Error(msg)\<close> of the service itself, the rejection of
  \<^verbatim>\<open>navigator.mediaDevices.getUserMedia\<close>, the rejection of a SIP.js call, and the
  \<^verbatim>\<open>TypeError\<close> of a property access on \<^verbatim>\<open>undefined\<close>, of a call of a member that does
  not exist, or of an assignment to a property that has no setter.
\<close>

datatype error = Error string | MediaError | LibraryError | TypeError

text \<open>
  Everything the service does to its collaborators is recorded, in order: media
  acquisition, the SIP.js methods it invokes on a session, and the notifications it
  hands to its subscribers (\<^verbatim>\<open>onIncomingCall\<close>, \<^verbatim>\<open>onCallStateChange\<close>).
\<close>

datatype effect =
    GetUserMedia bool bool
  | Invite session_ref
  | Cancel session_ref
  | Bye session_ref
  | Accept session_ref
  | Reject session_ref
  | Info session_ref string
  | IncomingCall session_ref
  | CallStateChange CallSession

text \<open>
  The service object, followed by the part of the world it works on. \<open>activeSessions\<close> is
  the \<^verbatim>\<open>Map\<close> in insertion order: \<open>AList.update\<close> is \<^verbatim>\<open>Map.set\<close> (an existing key keeps
  its place, a new one goes to the end), \<open>AList.delete\<close> is \<^verbatim>\<open>Map.delete\<close> and \<open>map_of\<close> is
  \<^verbatim>\<open>Map.get\<close>; built this way from the empty store the keys are distinct. \<open>sessions\<close> and
  \<open>streams\<close> hold the session and stream objects, \<open>next_session\<close> and \<open>next_stream\<close> are the
  references the next new objects get, \<open>clock\<close> is what \<^verbatim>\<open>new Date()\<close> yields and \<open>trace\<close>
  records the effects. Subscribers are taken not to call back into the service from
  inside a notification.
\<close>

record SipService =
  userAgent :: "UserAgentState option"
  registerer :: "RegistererState option"
  config :: "SipConfig option"
  activeSessions :: "(string \<times> session_ref) list"
  sessions :: "session_ref \<Rightarrow> Session"
  next_session :: session_ref
  streams :: "stream_ref \<Rightarrow> MediaStreamTrack list"
  next_stream :: stream_ref
  clock :: nat
  trace :: "effect list"

subsection \<open>The environment: SIP.js and the browser\<close>

text \<open>
  SIP.js and the browser are not part of the repository. What they do during one call of
  the service is a parameter: whether \<^verbatim>\<open>UserAgent.makeURI\<close> yields a URI, whether
  \<^verbatim>\<open>getUserMedia\<close> resolves (and with which tracks), the clock and random digits read by
  \<^verbatim>\<open>generateSessionId\<close>, and for every awaited session method an \<open>outcome\<close>: the handler
  the library installs on the session (if any), the state changes it announces to the
  session's listeners before the promise settles, and whether the promise rejects.
\<close>

record outcome =
  handler :: "SessionDescriptionHandler option"
  fires :: "SessionState list"
  rejects :: bool

record env =
  makeURI :: "string \<Rightarrow> string option"
  getUserMedia :: "MediaStreamTrack list option"
  stamp :: string
  rnd :: string
  invite :: outcome
  cancel :: outcome
  bye :: outcome
  accept :: outcome
  reject :: outcome
  info :: bool

type_synonym 'a result = "(error + 'a) \<times> SipService"

section \<open>Private helpers of the service\<close>

definition log_effect :: "effect \<Rightarrow> SipService \<Rightarrow> SipService" where
  "log_effect x s = s\<lparr>trace := trace s @ [x]\<rparr>"

definition generateSessionId :: "env \<Rightarrow> string" where
  "generateSessionId e = ''session_'' @ stamp e @ ''_'' @ rnd e"

fun getSessionId_loop :: "(string \<times> session_ref) list \<Rightarrow> session_ref \<Rightarrow> string option" where
  "getSessionId_loop [] r = None"
| "getSessionId_loop ((sessionId, storedSession) # rest) r =
     (if storedSession = r then Some sessionId else getSessionId_loop rest r)"

definition getSessionId :: "SipService \<Rightarrow> session_ref \<Rightarrow> string option" where
  "getSessionId s r = getSessionId_loop (activeSessions s) r"

text \<open>
  The object literal built by \<^verbatim>\<open>updateCallSession\<close> and \<^verbatim>\<open>getActiveSessions\<close>:
  \<^verbatim>\<open>x || 'Unknown'\<close> replaces a missing or empty identity, \<^verbatim>\<open>startTime || new Date()\<close> a
  missing start time.
\<close>

definition callSession :: "SipService \<Rightarrow> string \<Rightarrow> session_ref \<Rightarrow> CallSession" where
  "callSession s sessionId r =
     (let session = sessions s r in
      \<lparr> id_cs = sessionId,
        state_cs = state session,
        remoteIdentity_cs =
          (case remoteIdentity session of
             None \<Rightarrow> ''Unknown''
           | Some u \<Rightarrow> if u = [] then ''Unknown'' else u),
        startTime_cs = (case startTime session of None \<Rightarrow> clock s | Some t \<Rightarrow> t),
        localStream_cs =
          (case sessionDescriptionHandler session of
             None \<Rightarrow> None | Some h \<Rightarrow> localMediaStream h),
        remoteStream_cs =
          (case sessionDescriptionHandler session of
             None \<Rightarrow> None | Some h \<Rightarrow> remoteMediaStream h) \<rparr>)"

definition updateCallSession :: "SipService \<Rightarrow> string \<Rightarrow> session_ref \<Rightarrow> SipService" where
  "updateCallSession s sessionId r = log_effect (CallStateChange (callSession s sessionId r)) s"

definition stop_track :: "MediaStreamTrack \<Rightarrow> MediaStreamTrack" where
  "stop_track t = t\<lparr>stops := stops t + 1\<rparr>"

definition stopTracks :: "stream_ref \<Rightarrow> SipService \<Rightarrow> SipService" where
  "stopTracks m s = s\<lparr>streams := (streams s)(m := map stop_track (streams s m))\<rparr>"

text \<open>
  \<^verbatim>\<open>if (sessionId)\<close> in \<^verbatim>\<open>cleanupSession\<close> and in the listener of
  \<^verbatim>\<open>setupSessionHandlers\<close>: \<^verbatim>\<open>null\<close> and the empty string are falsy.
\<close>

definition cleanupSession :: "SipService \<Rightarrow> session_ref \<Rightarrow> SipService" where
  "cleanupSession s r =
     (let s1 = (case getSessionId s r of
                  None \<Rightarrow> s
                | Some sessionId \<Rightarrow>
                    if sessionId = [] then s
                    else s\<lparr>activeSessions := AList.delete sessionId (activeSessions s)\<rparr>)
      in case sessionDescriptionHandler (sessions s1 r) of
           None \<Rightarrow> s1
         | Some h \<Rightarrow> (case localMediaStream h of None \<Rightarrow> s1 | Some m \<Rightarrow> stopTracks m s1))"

definition notifyStateChange :: "SipService \<Rightarrow> session_ref \<Rightarrow> SipService" where
  "notifyStateChange s r =
     (case getSessionId s r of
        None \<Rightarrow> s
      | Some sessionId \<Rightarrow> if sessionId = [] then s else updateCallSession s sessionId r)"

text \<open>
  The bodies of the two listeners. When the new state is Established the listener of
  \<^verbatim>\<open>setupSessionHandlers\<close> reads \<^verbatim>\<open>session.sessionDescriptionHandler\<close> without a guard and,
  if it captured a stream, assigns it to the handler's \<^verbatim>\<open>localMediaStream\<close>
  (\<^verbatim>\<open>sessionDescriptionHandler.localMediaStream = localStream\<close>). On a session without
  handler the access is a \<^verbatim>\<open>TypeError\<close>; on a session with handler the assignment is a
  \<^verbatim>\<open>TypeError\<close> too, because the property has a getter only and the module runs in strict
  mode. Either way the exception leaves the listener before the notification.
\<close>

fun run_listener :: "session_ref \<Rightarrow> SessionState \<Rightarrow> listener \<Rightarrow> SipService \<Rightarrow> error option \<times> SipService" where
  "run_listener r newState (IncomingListener sessionId) s =
     (None, if newState = Terminated
            then s\<lparr>activeSessions := AList.delete sessionId (activeSessions s)\<rparr>
            else s)"
| "run_listener r newState (SessionListener localStream) s =
     (if newState = Established then
        (case sessionDescriptionHandler (sessions s r) of
           None \<Rightarrow> (Some TypeError, s)
         | Some h \<Rightarrow>
             (case localStream of
                Some m \<Rightarrow> (Some TypeError, s)
              | None \<Rightarrow> (None, notifyStateChange s r)))
      else if newState = Terminated then (None, notifyStateChange (cleanupSession s r) r)
      else (None, notifyStateChange s r))"

text \<open>
  SIP.js announces a state change by storing the new state in the session and calling
  the listeners in the order of their registration; an exception thrown by a listener
  ends the announcement and surfaces in the library call that caused it.
\<close>

fun emit :: "listener list \<Rightarrow> session_ref \<Rightarrow> SessionState \<Rightarrow> SipService \<Rightarrow> error option \<times> SipService" where
  "emit [] r newState s = (None, s)"
| "emit (l # ls) r newState s =
     (case run_listener r newState l s of
        (Some e, s1) \<Rightarrow> (Some e, s1)
      | (None, s1) \<Rightarrow> emit ls r newState s1)"

definition set_state :: "session_ref \<Rightarrow> SessionState \<Rightarrow> SipService \<Rightarrow> SipService" where
  "set_state r newState s = s\<lparr>sessions := (sessions s)(r := (sessions s r)\<lparr>state := newState\<rparr>)\<rparr>"

definition stateTransition :: "session_ref \<Rightarrow> SessionState \<Rightarrow> SipService \<Rightarrow> error option \<times> SipService" where
  "stateTransition r newState s =
     (let s1 = set_state r newState s in emit (stateChange (sessions s1 r)) r newState s1)"

fun transitions :: "session_ref \<Rightarrow> SessionState list \<Rightarrow> SipService \<Rightarrow> error option \<times> SipService" where
  "transitions r [] s = (None, s)"
| "transitions r (newState # rest) s =
     (case stateTransition r newState s of
        (Some e, s1) \<Rightarrow> (Some e, s1)
      | (None, s1) \<Rightarrow> transitions r rest s1)"

definition install_handler :: "session_ref \<Rightarrow> SessionDescriptionHandler option \<Rightarrow> SipService \<Rightarrow> SipService" where
  "install_handler r ho s =
     (case ho of
        None \<Rightarrow> s
      | Some h \<Rightarrow> s\<lparr>sessions := (sessions s)(r := (sessions s r)\<lparr>sessionDescriptionHandler := Some h\<rparr>)\<rparr>)"

definition library_call :: "outcome \<Rightarrow> session_ref \<Rightarrow> SipService \<Rightarrow> error option \<times> SipService" where
  "library_call oc r s =
     (case transitions r (fires oc) (install_handler r (handler oc) s) of
        (Some e, s1) \<Rightarrow> (Some e, s1)
      | (None, s1) \<Rightarrow> (if rejects oc then Some LibraryError else None, s1))"

definition setupSessionHandlers :: "session_ref \<Rightarrow> stream_ref option \<Rightarrow> SipService \<Rightarrow> SipService" where
  "setupSessionHandlers r localStream s =
     s\<lparr>sessions := (sessions s)
        (r := (sessions s r)\<lparr>stateChange := stateChange (sessions s r) @ [SessionListener localStream]\<rparr>)\<rparr>"

text \<open>A resolved \<^verbatim>\<open>getUserMedia\<close> hands over a new stream object.\<close>

definition new_stream :: "MediaStreamTrack list \<Rightarrow> SipService \<Rightarrow> stream_ref \<times> SipService" where
  "new_stream ts s =
     (next_stream s, s\<lparr>streams := (streams s)(next_stream s := ts), next_stream := next_stream s + 1\<rparr>)"

text \<open>
  A new session object, without handler and without listeners: \<^verbatim>\<open>new Inviter(...)\<close> in
  makeCall creates one in state Initial, the library creates the \<^verbatim>\<open>Invitation\<close> of an
  incoming call.
\<close>

definition new_session :: "session_class \<Rightarrow> SessionState \<Rightarrow> string option \<Rightarrow> SipService \<Rightarrow> session_ref \<times> SipService" where
  "new_session c st ri s =
     (next_session s,
      s\<lparr>sessions := (sessions s)
          (next_session s :=
             \<lparr> cls = c, state = st, remoteIdentity = ri, startTime = None,
               sessionDescriptionHandler = None, stateChange = [] \<rparr>),
        next_session := next_session s + 1\<rparr>)"

section \<open>Public operations\<close>

definition isRegistered :: "SipService \<Rightarrow> bool" where
  "isRegistered s = (registerer s = Some Registered)"

definition isConnected :: "SipService \<Rightarrow> bool" where
  "isConnected s = (userAgent s = Some Started)"

definition getActiveSessions :: "SipService \<Rightarrow> CallSession list" where
  "getActiveSessions s = map (\<lambda>(sessionId, r). callSession s sessionId r) (activeSessions s)"

definition makeCall :: "env \<Rightarrow> string \<Rightarrow> CallOptions \<Rightarrow> SipService \<Rightarrow> string result" where
  "makeCall e targetUri options s =
     (case (userAgent s, config s) of
        (Some ua, Some cfg) \<Rightarrow>
          (case makeURI e (''sip:'' @ targetUri @ ''@'' @ domain cfg) of
             None \<Rightarrow> (Inl (Error ''Invalid target URI''), s)
           | Some target \<Rightarrow>
               (let s1 = log_effect (GetUserMedia (audio_opt options) (video_opt options)) s in
                case getUserMedia e of
                  None \<Rightarrow> (Inl MediaError, s1)
                | Some ts \<Rightarrow>
                    (let (localStream, s2) = new_stream ts s1;
                         (inviter, s3) = new_session Inviter Initial (Some target) s2;
                         s4 = setupSessionHandlers inviter (Some localStream) s3;
                         sessionId = generateSessionId e;
                         s5 = s4\<lparr>activeSessions := AList.update sessionId inviter (activeSessions s4)\<rparr>
                     in case library_call (invite e) inviter (log_effect (Invite inviter) s5) of
                          (Some err, s6) \<Rightarrow> (Inl err, s6)
                        | (None, s6) \<Rightarrow> (Inr sessionId, s6))))
      | _ \<Rightarrow> (Inl (Error ''SIP service not initialized''), s))"

definition answerCall :: "env \<Rightarrow> string \<Rightarrow> CallOptions \<Rightarrow> SipService \<Rightarrow> unit result" where
  "answerCall e sessionId options s =
     (case map_of (activeSessions s) sessionId of
        None \<Rightarrow> (Inl (Error ''Invalid session ID or session not found''), s)
      | Some invitation \<Rightarrow>
          if cls (sessions s invitation) \<noteq> Invitation
          then (Inl (Error ''Invalid session ID or session not found''), s)
          else
            (let s1 = log_effect (GetUserMedia (audio_opt options) (video_opt options)) s in
             case getUserMedia e of
               None \<Rightarrow> (Inl MediaError, s1)
             | Some ts \<Rightarrow>
                 (let (localStream, s2) = new_stream ts s1;
                      s3 = setupSessionHandlers invitation (Some localStream) s2
                  in case library_call (accept e) invitation (log_effect (Accept invitation) s3) of
                       (Some err, s4) \<Rightarrow> (Inl err, s4)
                     | (None, s4) \<Rightarrow> (Inr (), updateCallSession s4 sessionId invitation))))"

definition rejectCall :: "env \<Rightarrow> string \<Rightarrow> SipService \<Rightarrow> unit result" where
  "rejectCall e sessionId s =
     (case map_of (activeSessions s) sessionId of
        None \<Rightarrow> (Inl (Error ''Invalid session ID or session not found''), s)
      | Some invitation \<Rightarrow>
          if cls (sessions s invitation) \<noteq> Invitation
          then (Inl (Error ''Invalid session ID or session not found''), s)
          else
            (case library_call (reject e) invitation (log_effect (Reject invitation) s) of
               (Some err, s1) \<Rightarrow> (Inl err, s1)
             | (None, s1) \<Rightarrow>
                 (Inr (), s1\<lparr>activeSessions := AList.delete sessionId (activeSessions s1)\<rparr>)))"

text \<open>
  \<^verbatim>\<open>await session.cancel()\<close>: an \<^verbatim>\<open>Inviter\<close> has the method; on an \<^verbatim>\<open>Invitation\<close>
  \<^verbatim>\<open>session.cancel\<close> is undefined and calling it is a \<^verbatim>\<open>TypeError\<close>, with nothing sent.
\<close>

definition cancel_session :: "env \<Rightarrow> session_ref \<Rightarrow> SipService \<Rightarrow> error option \<times> SipService" where
  "cancel_session e session s =
     (if cls (sessions s session) = Inviter
      then library_call (cancel e) session (log_effect (Cancel session) s)
      else (Some TypeError, s))"

text \<open>
  The \<^verbatim>\<open>switch (session.state)\<close> of \<^verbatim>\<open>hangupCall\<close>: which method of the session is awaited,
  if any.
\<close>

definition hangup_signal :: "env \<Rightarrow> session_ref \<Rightarrow> SipService \<Rightarrow> error option \<times> SipService" where
  "hangup_signal e session s =
     (case state (sessions s session) of
        Initial \<Rightarrow> cancel_session e session s
      | Establishing \<Rightarrow> cancel_session e session s
      | Established \<Rightarrow> library_call (bye e) session (log_effect (Bye session) s)
      | Terminating \<Rightarrow> (None, s)
      | Terminated \<Rightarrow> (None, s))"

definition hangupCall :: "env \<Rightarrow> string \<Rightarrow> SipService \<Rightarrow> unit result" where
  "hangupCall e sessionId s =
     (case map_of (activeSessions s) sessionId of
        None \<Rightarrow> (Inl (Error ''Session not found''), s)
      | Some session \<Rightarrow>
          (case hangup_signal e session s of
             (Some err, s1) \<Rightarrow> (Inl err, s1)
           | (None, s1) \<Rightarrow>
               (Inr (), s1\<lparr>activeSessions := AList.delete sessionId (activeSessions s1)\<rparr>)))"

text \<open>
  Past its guard, toggleHold reads \<^verbatim>\<open>sessionDescriptionHandler.localHold\<close> and awaits
  \<^verbatim>\<open>unhold()\<close> or \<^verbatim>\<open>hold()\<close> of the handler. On a session without handler the read is a
  \<^verbatim>\<open>TypeError\<close>. On a session with handler \<^verbatim>\<open>localHold\<close> is undefined, so the else branch is
  taken, and \<^verbatim>\<open>sessionDescriptionHandler.hold\<close> is undefined, so calling it is a
  \<^verbatim>\<open>TypeError\<close>. The catch block rethrows it; nothing has been sent or changed.
\<close>

definition toggleHold :: "env \<Rightarrow> string \<Rightarrow> SipService \<Rightarrow> unit result" where
  "toggleHold e sessionId s =
     (case map_of (activeSessions s) sessionId of
        None \<Rightarrow> (Inl (Error ''No established session found''), s)
      | Some session \<Rightarrow>
          if state (sessions s session) \<noteq> Established
          then (Inl (Error ''No established session found''), s)
          else
            (case sessionDescriptionHandler (sessions s session) of
               None \<Rightarrow> (Inl TypeError, s)
             | Some h \<Rightarrow> (Inl TypeError, s)))"

definition toggle_enabled :: "MediaStreamTrack \<Rightarrow> MediaStreamTrack" where
  "toggle_enabled t = (if audio t then t\<lparr>enabled := \<not> enabled t\<rparr> else t)"

definition toggleMute :: "env \<Rightarrow> string \<Rightarrow> SipService \<Rightarrow> unit result" where
  "toggleMute e sessionId s =
     (case map_of (activeSessions s) sessionId of
        None \<Rightarrow> (Inl (Error ''No established session found''), s)
      | Some session \<Rightarrow>
          if state (sessions s session) \<noteq> Established
          then (Inl (Error ''No established session found''), s)
          else
            (case sessionDescriptionHandler (sessions s session) of
               None \<Rightarrow> (Inl TypeError, s)
             | Some h \<Rightarrow>
                 (case localMediaStream h of
                    None \<Rightarrow> (Inr (), s)
                  | Some m \<Rightarrow>
                      (Inr (), s\<lparr>streams := (streams s)(m := map toggle_enabled (streams s m))\<rparr>))))"

definition sendDTMF :: "env \<Rightarrow> string \<Rightarrow> string \<Rightarrow> SipService \<Rightarrow> unit result" where
  "sendDTMF e sessionId tone s =
     (case map_of (activeSessions s) sessionId of
        None \<Rightarrow> (Inl (Error ''No established session found''), s)
      | Some session \<Rightarrow>
          if state (sessions s session) \<noteq> Established
          then (Inl (Error ''No established session found''), s)
          else
            (let s1 = log_effect
                        (Info session (''Signal='' @ tone @ [CHR 0x0D, CHR 0x0A] @ ''Duration=100'')) s
             in if info e then (Inr (), s1) else (Inl LibraryError, s1)))"

definition handleIncomingCall :: "env \<Rightarrow> session_ref \<Rightarrow> SipService \<Rightarrow> SipService" where
  "handleIncomingCall e invitation s =
     (let sessionId = generateSessionId e;
          s1 = s\<lparr>activeSessions := AList.update sessionId invitation (activeSessions s)\<rparr>;
          s2 = s1\<lparr>sessions := (sessions s1)
                  (invitation := (sessions s1 invitation)
                     \<lparr>stateChange := stateChange (sessions s1 invitation) @ [IncomingListener sessionId]\<rparr>)\<rparr>
      in log_effect (IncomingCall invitation) s2)"

text \<open>
  The \<^verbatim>\<open>onInvite\<close> delegate installed by \<^verbatim>\<open>initialize\<close>: SIP.js has created an
  \<^verbatim>\<open>Invitation\<close> (in the state and with the remote identity it chose) and hands it over.
  The delegate first logs \<^verbatim>\<open>invitation.remoteIdentity.uri.toString()\<close> without a guard: on an
  invitation without remote identity that is a \<^verbatim>\<open>TypeError\<close>, and handleIncomingCall is not
  reached.
\<close>

definition onInvite :: "env \<Rightarrow> SessionState \<Rightarrow> string option \<Rightarrow> SipService \<Rightarrow> error option \<times> SipService" where
  "onInvite e st ri s =
     (let (invitation, s1) = new_session Invitation st ri s in
      case ri of
        None \<Rightarrow> (Some TypeError, s1)
      | Some u \<Rightarrow> (None, handleIncomingCall e invitation s1))"

text \<open>The \<^verbatim>\<open>requestDelegate\<close> closures that \<^verbatim>\<open>makeCall\<close> passes to \<^verbatim>\<open>inviter.invite\<close>.\<close>

definition onAccept :: "string \<Rightarrow> session_ref \<Rightarrow> SipService \<Rightarrow> SipService" where
  "onAccept sessionId inviter s = updateCallSession s sessionId inviter"

definition onReject :: "string \<Rightarrow> SipService \<Rightarrow> SipService" where
  "onReject sessionId s = s\<lparr>activeSessions := AList.delete sessionId (activeSessions s)\<rparr>"

text \<open>
  \<^verbatim>\<open>initialize\<close> stores the configuration, then constructs the user agent and the
  registerer; \<open>ok\<close> says whether the constructors return or throw.
\<close>

definition initialize :: "bool \<Rightarrow> SipConfig \<Rightarrow> SipService \<Rightarrow> unit result" where
  "initialize ok cfg s =
     (if ok
      then (Inr (), s\<lparr>config := Some cfg, userAgent := Some Stopped, registerer := Some RegInitial\<rparr>)
      else (Inl LibraryError, s\<lparr>config := Some cfg\<rparr>))"

definition blank_session :: Session where
  "blank_session =
     \<lparr> cls = Inviter, state = Initial, remoteIdentity = None, startTime = None,
       sessionDescriptionHandler = None, stateChange = [] \<rparr>"

definition newSipService :: SipService where
  "newSipService =
     \<lparr> userAgent = None, registerer = None, config = None, activeSessions = [],
       sessions = (\<lambda>_. blank_session), next_session = 0,
       streams = (\<lambda>_. []), next_stream = 0, clock = 0, trace = [] \<rparr>"

section \<open>Observations\<close>

text \<open>
  The calls the service makes on its collaborators (media acquisition and SIP.js session
  methods), as opposed to the notifications it hands to its own subscribers.
\<close>

fun is_notification :: "effect \<Rightarrow> bool" where
  "is_notification (IncomingCall _) = True"
| "is_notification (CallStateChange _) = True"
| "is_notification _ = False"

definition calls :: "SipService \<Rightarrow> effect list" where
  "calls s = filter (\<lambda>x. \<not> is_notification x) (trace s)"

fun is_acquire :: "effect \<Rightarrow> bool" where
  "is_acquire (GetUserMedia _ _) = True"
| "is_acquire _ = False"

definition acquire_count :: "SipService \<Rightarrow> nat" where
  "acquire_count s = length (filter is_acquire (trace s))"

subsection \<open>The store\<close>

text \<open>
  A listener that takes the session out of the store when Terminated is announced: the
  listener of \<^verbatim>\<open>handleIncomingCall\<close> deletes the id it captured, the listener of
  \<^verbatim>\<open>setupSessionHandlers\<close> runs \<^verbatim>\<open>cleanupSession\<close>.
\<close>

fun removes :: "string \<Rightarrow> listener \<Rightarrow> bool" where
  "removes sessionId (IncomingListener k) = (k = sessionId)"
| "removes sessionId (SessionListener localStream) = True"

text \<open>
  The store as the service builds it: every session object is stored at most once, and
  no identifier is the empty string (\<^verbatim>\<open>generateSessionId\<close> never produces it).
\<close>

definition wf_store :: "(string \<times> session_ref) list \<Rightarrow> bool" where
  "wf_store al = (distinct (map snd al) \<and> [] \<notin> fst ` set al)"

text \<open>
  The position of one session in the store while listeners run: the store is well formed
  and the identifier is either gone or still bound to the session.
\<close>

definition tracked :: "string \<Rightarrow> session_ref \<Rightarrow> (string \<times> session_ref) list \<Rightarrow> bool" where
  "tracked sessionId r al = (wf_store al \<and> (sessionId \<notin> fst ` set al \<or> (sessionId, r) \<in> set al))"

text \<open>
  A well-formed service: the store is well formed and every stored reference denotes a
  session object that has been created.
\<close>

definition wf_state :: "SipService \<Rightarrow> bool" where
  "wf_state s = (wf_store (activeSessions s) \<and> (\<forall>p \<in> set (activeSessions s). snd p < next_session s))"

text \<open>
  Two more properties of the states the service reaches: every stored session has a
  listener that removes it from the store, and no stored session is Terminated.
\<close>

definition listened :: "SipService \<Rightarrow> bool" where
  "listened s =
     (\<forall>p \<in> set (activeSessions s). \<exists>l \<in> set (stateChange (sessions s (snd p))). removes (fst p) l)"

definition live :: "SipService \<Rightarrow> bool" where
  "live s = (\<forall>p \<in> set (activeSessions s). state (sessions s (snd p)) \<noteq> Terminated)"

definition reachable_inv :: "SipService \<Rightarrow> bool" where
  "reachable_inv s = (wf_state s \<and> listened s \<and> live s)"

text \<open>
  How the service after a listener has run relates to the service before: entries have
  at most been taken out of the store, and every session object has kept its state and its
  listeners.
\<close>

definition shrinks :: "SipService \<Rightarrow> SipService \<Rightarrow> bool" where
  "shrinks s s' =
     (set (activeSessions s') \<subseteq> set (activeSessions s) \<and>
      (\<forall>r. state (sessions s' r) = state (sessions s r) \<and>
           stateChange (sessions s' r) = stateChange (sessions s r)))"

text \<open>
  The service at the moment makeCall awaits \<^verbatim>\<open>inviter.invite\<close>: media acquired, the
  inviter created with its listener, the session stored.
\<close>

definition inviting :: "env \<Rightarrow> string \<Rightarrow> MediaStreamTrack list \<Rightarrow> CallOptions \<Rightarrow> SipService \<Rightarrow> SipService" where
  "inviting e target ts options s =
     (let s1 = log_effect (GetUserMedia (audio_opt options) (video_opt options)) s;
          (localStream, s2) = new_stream ts s1;
          (inviter, s3) = new_session Inviter Initial (Some target) s2;
          s4 = setupSessionHandlers inviter (Some localStream) s3;
          s5 = s4\<lparr>activeSessions := AList.update (generateSessionId e) inviter (activeSessions s4)\<rparr>
      in log_effect (Invite inviter) s5)"

subsection \<open>Concrete configurations and environments\<close>

definition cfg0 :: SipConfig where
  "cfg0 = \<lparr> server = ''wss://pbx.example.com'', username = ''alice'', password = ''secret'',
            domain = ''example.com'', displayName = None \<rparr>"

definition audio_only :: CallOptions where
  "audio_only = \<lparr> audio_opt = True, video_opt = False \<rparr>"

definition mic :: MediaStreamTrack where
  "mic = \<lparr> audio = True, enabled = True, stops = 0 \<rparr>"

definition sdh0 :: SessionDescriptionHandler where
  "sdh0 = \<lparr> localMediaStream = None, remoteMediaStream = None \<rparr>"

text \<open>
  An environment in which everything succeeds the way SIP.js does it: \<^verbatim>\<open>invite\<close> creates
  the handler and announces Establishing, \<^verbatim>\<open>cancel\<close> announces Terminating, \<^verbatim>\<open>bye\<close> and
  \<^verbatim>\<open>reject\<close> announce Terminated, \<^verbatim>\<open>accept\<close> creates the handler and announces Establishing
  and Established.
\<close>

definition env0 :: env where
  "env0 =
     \<lparr> makeURI = Some, getUserMedia = Some [mic], stamp = ''1700000000000'', rnd = ''k3j9x0q2z'',
       invite = \<lparr> handler = Some sdh0, fires = [Establishing], rejects = False \<rparr>,
       cancel = \<lparr> handler = None, fires = [Terminating], rejects = False \<rparr>,
       bye = \<lparr> handler = None, fires = [Terminated], rejects = False \<rparr>,
       accept = \<lparr> handler = Some sdh0, fires = [Establishing, Established], rejects = False \<rparr>,
       reject = \<lparr> handler = None, fires = [Terminated], rejects = False \<rparr>,
       info = True \<rparr>"

definition sid0 :: string where
  "sid0 = ''session_1700000000000_k3j9x0q2z''"

text \<open>The service after \<^verbatim>\<open>initialize\<close>, before any registration.\<close>

definition s_init :: SipService where
  "s_init = snd (initialize True cfg0 newSipService)"

text \<open>The service connected to the server, its registration refused or expired.\<close>

definition s_unregistered :: SipService where
  "s_unregistered = s_init\<lparr>userAgent := Some Started, registerer := Some Unregistered\<rparr>"

text \<open>An outgoing call to bob has been placed and is Establishing.\<close>

definition s_calling :: SipService where
  "s_calling = snd (makeCall env0 ''bob'' audio_only s_init)"

text \<open>The call to bob has been answered by bob: the library announces Established.\<close>

definition s_talking :: SipService where
  "s_talking = snd (stateTransition 0 Established s_calling)"

text \<open>The remote party hangs up the established call: the library announces Terminated.\<close>

definition s_ended :: SipService where
  "s_ended = snd (stateTransition 0 Terminated s_talking)"

text \<open>
  The caller hangs up the Establishing call, the library announces Terminating and the
  \<^verbatim>\<open>cancel\<close> promise then rejects: hangupCall rethrows and the session stays stored.
\<close>

definition s_cancel_failed :: SipService where
  "s_cancel_failed =
     snd (hangupCall (env0\<lparr>cancel := \<lparr> handler = None, fires = [Terminating], rejects = True \<rparr>\<rparr>)
            sid0 s_calling)"

text \<open>
  An environment in which the invite fails the way SIP.js reports it: the session is
  taken to Terminated and the promise rejects.
\<close>

definition env_invite_fails :: env where
  "env_invite_fails = env0\<lparr>invite := \<lparr> handler = None, fires = [Terminated], rejects = True \<rparr>\<rparr>"

text \<open>An environment in which the invite promise rejects without any state change.\<close>

definition env_invite_rejects :: env where
  "env_invite_rejects = env0\<lparr>invite := \<lparr> handler = None, fires = [], rejects = True \<rparr>\<rparr>"

text \<open>
  The caller hangs up the Establishing call to bob (\<^verbatim>\<open>cancel\<close> resolves, the session is
  Terminating) and the library later announces Terminated.
\<close>

definition s_cancelled :: SipService where
  "s_cancelled = snd (stateTransition 0 Terminated (snd (hangupCall env0 sid0 s_calling)))"

text \<open>An incoming call from carol has arrived; SIP.js delivers the invitation in state Initial.\<close>

definition s_ringing :: SipService where
  "s_ringing = snd (onInvite env0 Initial (Some ''sip:carol@example.com'') s_init)"

text \<open>An environment in which \<^verbatim>\<open>accept\<close> rejects without any state change.\<close>

definition env_accept_rejects :: env where
  "env_accept_rejects = env0\<lparr>accept := \<lparr> handler = None, fires = [], rejects = True \<rparr>\<rparr>"

subsection \<open>Listing and bystanders\<close>

text \<open>An identifier is listed when getActiveSessions returns an entry for it.\<close>

definition listed :: "SipService \<Rightarrow> string \<Rightarrow> bool" where
  "listed s k = (k \<in> set (map id_cs (getActiveSessions s)))"

text \<open>
  The listeners that handleIncomingCall has registered on session \<open>r0\<close> capture no
  identifier that the store binds to another session.
\<close>

definition owns :: "SipService \<Rightarrow> session_ref \<Rightarrow> bool" where
  "owns s r0 =
     (\<forall>l \<in> set (stateChange (sessions s r0)). \<forall>p \<in> set (activeSessions s).
        l = IncomingListener (fst p) \<longrightarrow> snd p = r0)"

text \<open>
  A bystander of session \<open>r0\<close>: an identifier that the store binds to another session, in
  a store with distinct keys and with \<open>r0\<close> owning what its listeners capture.
\<close>

definition bystander :: "SipService \<Rightarrow> string \<Rightarrow> session_ref \<Rightarrow> bool" where
  "bystander s k r0 =
     ((\<exists>p \<in> set (activeSessions s). fst p = k \<and> snd p \<noteq> r0) \<and>
      distinct (map fst (activeSessions s)) \<and> owns s r0)"

text \<open>
  The store has distinct keys and every session owns what its listeners capture. This
  holds in the states the service reaches as long as \<^verbatim>\<open>generateSessionId\<close> keeps producing
  identifiers that no listener has captured (\<open>fresh_id\<close>).
\<close>

definition owned :: "SipService \<Rightarrow> bool" where
  "owned s = (distinct (map fst (activeSessions s)) \<and> (\<forall>r0. owns s r0))"

definition fresh_id :: "env \<Rightarrow> SipService \<Rightarrow> bool" where
  "fresh_id e s = (\<forall>r0. IncomingListener (generateSessionId e) \<notin> set (stateChange (sessions s r0)))"

text \<open>The handler of session \<open>r\<close>, if there is one, does not hold the stream \<open>m\<close>.\<close>

definition apart :: "SipService \<Rightarrow> session_ref \<Rightarrow> stream_ref \<Rightarrow> bool" where
  "apart s r m =
     (case sessionDescriptionHandler (sessions s r) of
        None \<Rightarrow> True
      | Some h \<Rightarrow> localMediaStream h \<noteq> Some m)"

text \<open>
  A second incoming call, from carol, arrives while the call to bob is Establishing; it
  gets an identifier of its own.
\<close>

definition env1 :: env where
  "env1 = env0\<lparr>stamp := ''1700000004200'', rnd := ''p7w2m4d8a''\<rparr>"

definition sid1 :: string where
  "sid1 = ''session_1700000004200_p7w2m4d8a''"

definition s_both :: SipService where
  "s_both = snd (onInvite env1 Initial (Some ''sip:carol@example.com'') s_calling)"

section \<open>Evaluation and frame lemmas\<close>

lemmas model_defs =
  log_effect_def generateSessionId_def getSessionId_def callSession_def updateCallSession_def
  stop_track_def stopTracks_def cleanupSession_def notifyStateChange_def
  set_state_def stateTransition_def install_handler_def library_call_def
  setupSessionHandlers_def new_stream_def new_session_def isRegistered_def isConnected_def
  getActiveSessions_def makeCall_def answerCall_def rejectCall_def cancel_session_def
  hangup_signal_def
  hangupCall_def toggleHold_def toggle_enabled_def toggleMute_def
  sendDTMF_def handleIncomingCall_def onInvite_def onAccept_def onReject_def initialize_def
  blank_session_def newSipService_def calls_def acquire_count_def
  cfg0_def audio_only_def mic_def sdh0_def env0_def sid0_def s_init_def s_calling_def
  s_talking_def s_ended_def s_cancel_failed_def wf_store_def
  env_invite_fails_def env_invite_rejects_def s_cancelled_def s_ringing_def
  env_accept_rejects_def s_unregistered_def wf_state_def listened_def live_def reachable_inv_def
  listed_def owns_def bystander_def apart_def env1_def sid1_def s_both_def
  Let_def

lemma calls_log_effect:
  "calls (log_effect x s) = (if is_notification x then calls s else calls s @ [x])"
  by (simp add: calls_def log_effect_def)

lemma calls_frame [simp]:
  "calls (s\<lparr>activeSessions := a\<rparr>) = calls s"
  "calls (s\<lparr>sessions := b\<rparr>) = calls s"
  "calls (s\<lparr>streams := c\<rparr>) = calls s"
  "calls (s\<lparr>next_session := d\<rparr>) = calls s"
  "calls (s\<lparr>next_stream := d\<rparr>) = calls s"
  by (simp_all add: calls_def)

lemma calls_notifyStateChange [simp]: "calls (notifyStateChange s r) = calls s"
  by (simp add: notifyStateChange_def updateCallSession_def calls_log_effect split: option.splits)

lemma calls_cleanupSession [simp]: "calls (cleanupSession s r) = calls s"
  by (simp add: cleanupSession_def stopTracks_def Let_def split: option.splits)

lemma calls_run_listener: "run_listener r ns l s = (x, s') \<Longrightarrow> calls s' = calls s"
  by (cases l) (auto split: if_splits option.splits)

lemma calls_emit: "emit ls r ns s = (x, s') \<Longrightarrow> calls s' = calls s"
proof (induction ls arbitrary: s)
  case Nil
  then show ?case by simp
next
  case (Cons l ls)
  then show ?case
    by (auto split: prod.splits option.splits dest: calls_run_listener)
qed

lemma calls_stateTransition: "stateTransition r ns s = (x, s') \<Longrightarrow> calls s' = calls s"
  by (auto simp: stateTransition_def set_state_def Let_def dest: calls_emit)

lemma calls_transitions: "transitions r nss s = (x, s') \<Longrightarrow> calls s' = calls s"
proof (induction nss arbitrary: s)
  case Nil
  then show ?case by simp
next
  case (Cons ns nss)
  then show ?case
    by (auto split: prod.splits option.splits dest: calls_stateTransition)
qed

lemma calls_library_call: "library_call oc r s = (x, s') \<Longrightarrow> calls s' = calls s"
  by (auto simp: library_call_def install_handler_def split: prod.splits option.splits
           dest: calls_transitions)

lemma calls_hangup_signal:
  "hangup_signal e r s = (x, s') \<Longrightarrow>
   calls s' = calls s @
     (case state (sessions s r) of
        Initial \<Rightarrow> if cls (sessions s r) = Inviter then [Cancel r] else []
      | Establishing \<Rightarrow> if cls (sessions s r) = Inviter then [Cancel r] else []
      | Established \<Rightarrow> [Bye r]
      | Terminating \<Rightarrow> [] | Terminated \<Rightarrow> [])"
  by (auto simp: hangup_signal_def cancel_session_def calls_log_effect
           split: SessionState.splits if_splits
           dest!: calls_library_call)

lemma acquire_count_calls: "acquire_count s = length (filter is_acquire (calls s))"
proof -
  have "\<And>x. (\<not> is_notification x \<and> is_acquire x) = is_acquire x"
    by (case_tac x) simp_all
  then show ?thesis by (simp add: acquire_count_def calls_def)
qed

lemma calls_handleIncomingCall [simp]: "calls (handleIncomingCall e r s) = calls s"
  by (simp add: handleIncomingCall_def Let_def calls_log_effect)

lemma calls_onInvite [simp]: "calls (snd (onInvite e st ri s)) = calls s"
  by (simp add: onInvite_def new_session_def split: option.splits)

lemma calls_rejectCall:
  "calls (snd (rejectCall e sessionId s)) = calls s \<or>
   (\<exists>r. calls (snd (rejectCall e sessionId s)) = calls s @ [Reject r])"
proof (cases "map_of (activeSessions s) sessionId")
  case None
  then show ?thesis by (simp add: rejectCall_def)
next
  case (Some r)
  obtain x s1 where h: "library_call (reject e) r (log_effect (Reject r) s) = (x, s1)"
    by (cases "library_call (reject e) r (log_effect (Reject r) s)")
  from calls_library_call [OF h] have "calls s1 = calls s @ [Reject r]"
    by (simp add: calls_log_effect)
  with Some h show ?thesis
    by (cases x) (auto simp: rejectCall_def)
qed

lemma store_notifyStateChange [simp]:
  "activeSessions (notifyStateChange s r) = activeSessions s"
  "streams (notifyStateChange s r) = streams s"
  "sessions (notifyStateChange s r) = sessions s"
  by (simp_all add: notifyStateChange_def updateCallSession_def log_effect_def split: option.splits)

lemma run_listener_quiet:
  "ns \<noteq> Terminated \<Longrightarrow> run_listener r ns l s = (x, s') \<Longrightarrow>
   activeSessions s' = activeSessions s \<and> streams s' = streams s"
  by (cases l) (auto split: if_splits option.splits)

lemma emit_quiet:
  "ns \<noteq> Terminated \<Longrightarrow> emit ls r ns s = (x, s') \<Longrightarrow>
   activeSessions s' = activeSessions s \<and> streams s' = streams s"
proof (induction ls arbitrary: s)
  case Nil
  then show ?case by simp
next
  case (Cons l ls)
  obtain y s1 where h: "run_listener r ns l s = (y, s1)" by (cases "run_listener r ns l s")
  from run_listener_quiet [OF Cons.prems(1) h]
  have q: "activeSessions s1 = activeSessions s \<and> streams s1 = streams s" .
  show ?case
  proof (cases y)
    case None
    with Cons.prems h have "emit ls r ns s1 = (x, s')" by simp
    from Cons.IH [OF Cons.prems(1) this] q show ?thesis by simp
  next
    case (Some e)
    with Cons.prems h have "s' = s1" by simp
    with q show ?thesis by simp
  qed
qed

lemma stateTransition_quiet:
  "ns \<noteq> Terminated \<Longrightarrow> stateTransition r ns s = (x, s') \<Longrightarrow>
   activeSessions s' = activeSessions s \<and> streams s' = streams s"
  by (auto simp: stateTransition_def set_state_def Let_def dest: emit_quiet)

lemma transitions_quiet:
  "Terminated \<notin> set nss \<Longrightarrow> transitions r nss s = (x, s') \<Longrightarrow>
   activeSessions s' = activeSessions s \<and> streams s' = streams s"
proof (induction nss arbitrary: s)
  case Nil
  then show ?case by simp
next
  case (Cons ns nss)
  obtain y s1 where h: "stateTransition r ns s = (y, s1)" by (cases "stateTransition r ns s")
  from Cons.prems have ns: "ns \<noteq> Terminated" and rest: "Terminated \<notin> set nss" by auto
  from stateTransition_quiet [OF ns h]
  have q: "activeSessions s1 = activeSessions s \<and> streams s1 = streams s" .
  show ?case
  proof (cases y)
    case None
    with Cons.prems h have "transitions r nss s1 = (x, s')" by simp
    from Cons.IH [OF rest this] q show ?thesis by simp
  next
    case (Some e)
    with Cons.prems h have "s' = s1" by simp
    with q show ?thesis by simp
  qed
qed

lemma library_call_quiet:
  "Terminated \<notin> set (fires oc) \<Longrightarrow> library_call oc r s = (x, s') \<Longrightarrow>
   activeSessions s' = activeSessions s \<and> streams s' = streams s"
  by (auto simp: library_call_def install_handler_def split: prod.splits option.splits
           dest: transitions_quiet)

lemma getSessionId_loop_stored:
  "distinct (map snd al) \<Longrightarrow> (sessionId, r) \<in> set al \<Longrightarrow> getSessionId_loop al r = Some sessionId"
proof (induction al)
  case Nil
  then show ?case by simp
next
  case (Cons p al)
  obtain k v where p: "p = (k, v)" by (cases p)
  show ?case
  proof (cases "v = r")
    case True
    with Cons.prems p have "k = sessionId" by (auto simp: image_iff)
    with True p show ?thesis by simp
  next
    case False
    with Cons p show ?thesis by auto
  qed
qed

lemma keys_delete: "fst ` set (AList.delete k al) = fst ` set al - {k}"
  by (induction al) auto

lemma wf_store_delete: "wf_store al \<Longrightarrow> wf_store (AList.delete k al)"
  by (auto simp: wf_store_def keys_delete AList.delete_eq distinct_map_filter)

lemma mem_delete: "(k', v) \<in> set (AList.delete k al) \<longleftrightarrow> k' \<noteq> k \<and> (k', v) \<in> set al"
  by (auto simp: AList.delete_eq)

lemma activeSessions_cleanupSession:
  "activeSessions (cleanupSession s r) =
     (case getSessionId_loop (activeSessions s) r of
        None \<Rightarrow> activeSessions s
      | Some k \<Rightarrow> if k = [] then activeSessions s else AList.delete k (activeSessions s))"
  by (simp add: cleanupSession_def getSessionId_def stopTracks_def Let_def split: option.splits)

lemma sessions_cleanupSession [simp]: "sessions (cleanupSession s r) = sessions s"
  by (simp add: cleanupSession_def getSessionId_def stopTracks_def Let_def split: option.splits)

text \<open>
  What the announcement of Terminated does to the store, one listener at a time: no
  listener throws, the store stays well formed, the session objects keep their state, an
  identifier that is gone stays gone, and a listener that removes the session does so.
\<close>

lemma tracked_delete: "tracked sessionId r al \<Longrightarrow> tracked sessionId r (AList.delete k al)"
  by (auto simp: tracked_def wf_store_delete keys_delete mem_delete)

lemma run_listener_Terminated:
  assumes "run_listener r Terminated l s = (x, s')" and "tracked sessionId r (activeSessions s)"
  shows "x = None \<and> tracked sessionId r (activeSessions s') \<and> sessions s' = sessions s \<and>
         (sessionId \<notin> fst ` set (activeSessions s) \<longrightarrow> sessionId \<notin> fst ` set (activeSessions s')) \<and>
         (removes sessionId l \<longrightarrow> sessionId \<notin> fst ` set (activeSessions s'))"
proof (cases l)
  case (IncomingListener k)
  with assms show ?thesis
    by (auto simp: tracked_delete keys_delete mem_delete image_iff)
next
  case (SessionListener localStream)
  with assms have x: "x = None" and s': "s' = notifyStateChange (cleanupSession s r) r"
    by auto
  let ?al = "activeSessions s"
  have al': "activeSessions s' =
     (case getSessionId_loop ?al r of
        None \<Rightarrow> ?al | Some k \<Rightarrow> if k = [] then ?al else AList.delete k ?al)"
    by (simp add: s' activeSessions_cleanupSession)
  have t: "tracked sessionId r (activeSessions s')"
    using assms(2) by (auto simp: al' tracked_delete split: option.splits)
  have gone: "sessionId \<notin> fst ` set (activeSessions s')"
  proof (cases "(sessionId, r) \<in> set ?al")
    case True
    with assms(2) have "getSessionId_loop ?al r = Some sessionId" and "sessionId \<noteq> []"
      by (auto simp: tracked_def wf_store_def getSessionId_loop_stored image_iff)
    then show ?thesis by (simp add: al' keys_delete)
  next
    case False
    with assms(2) have "sessionId \<notin> fst ` set ?al" by (auto simp: tracked_def)
    then show ?thesis by (auto simp: al' keys_delete split: option.splits)
  qed
  from x t gone show ?thesis by (simp add: s')
qed

lemma emit_Terminated:
  assumes "emit ls r Terminated s = (x, s')" and "tracked sessionId r (activeSessions s)"
  shows "x = None \<and> tracked sessionId r (activeSessions s') \<and> sessions s' = sessions s \<and>
         (sessionId \<notin> fst ` set (activeSessions s) \<longrightarrow> sessionId \<notin> fst ` set (activeSessions s')) \<and>
         ((\<exists>l \<in> set ls. removes sessionId l) \<longrightarrow> sessionId \<notin> fst ` set (activeSessions s'))"
  using assms
proof (induction ls arbitrary: s)
  case Nil
  then show ?case by simp
next
  case (Cons l ls)
  obtain y s1 where h: "run_listener r Terminated l s = (y, s1)"
    by (cases "run_listener r Terminated l s")
  note step = run_listener_Terminated [OF h Cons.prems(2)]
  then have y: "y = None" by simp
  with Cons.prems(1) h have rest: "emit ls r Terminated s1 = (x, s')" by simp
  from step have t1: "tracked sessionId r (activeSessions s1)" by simp
  note ih = Cons.IH [OF rest t1]
  from step ih show ?case by auto
qed

lemma stateTransition_Terminated:
  assumes "stateTransition r Terminated s = (x, s')"
    and "wf_store (activeSessions s)" and "(sessionId, r) \<in> set (activeSessions s)"
    and "\<exists>l \<in> set (stateChange (sessions s r)). removes sessionId l"
  shows "x = None \<and> map_of (activeSessions s') sessionId = None \<and>
         state (sessions s' r) = Terminated \<and> wf_store (activeSessions s')"
proof -
  let ?s1 = "set_state r Terminated s"
  have e: "emit (stateChange (sessions s r)) r Terminated ?s1 = (x, s')"
    using assms(1) by (simp add: stateTransition_def set_state_def Let_def)
  have t: "tracked sessionId r (activeSessions ?s1)"
    using assms(2,3) by (simp add: tracked_def set_state_def)
  from emit_Terminated [OF e t] assms(4)
  have "x = None" and "tracked sessionId r (activeSessions s')"
    and "sessions s' = sessions ?s1" and "sessionId \<notin> fst ` set (activeSessions s')"
    by auto
  then show ?thesis
    by (auto simp: tracked_def set_state_def map_of_eq_None_iff)
qed

lemma getActiveSessions_ids: "map id_cs (getActiveSessions s) = map fst (activeSessions s)"
  by (simp add: getActiveSessions_def callSession_def Let_def split_def)

lemma getActiveSessions_states:
  "map state_cs (getActiveSessions s) = map (\<lambda>p. state (sessions s (snd p))) (activeSessions s)"
  by (simp add: getActiveSessions_def callSession_def Let_def split_def)

lemma keys_update: "fst ` set (AList.update k v al) = insert k (fst ` set al)"
  by (induction al) auto

lemma library_call_rejects:
  "rejects oc \<Longrightarrow> library_call oc r s = (x, s') \<Longrightarrow> x \<noteq> None"
  by (auto simp: library_call_def split: prod.splits option.splits)

lemma values_update: "snd ` set (AList.update k v al) \<subseteq> insert v (snd ` set al)"
  by (induction al) auto

lemma mem_update: "(k, v) \<in> set (AList.update k v al)"
  by (induction al) auto

lemma distinct_values_update:
  "distinct (map snd al) \<Longrightarrow> v \<notin> snd ` set al \<Longrightarrow> distinct (map snd (AList.update k v al))"
proof (induction al)
  case Nil
  then show ?case by simp
next
  case (Cons p al)
  obtain k' v' where p: "p = (k', v')" by (cases p)
  show ?case
  proof (cases "k' = k")
    case True
    with Cons.prems p show ?thesis by (auto simp: image_iff)
  next
    case False
    from Cons.prems p have "v' \<noteq> v" and "v' \<notin> snd ` set al" by (auto simp: image_iff)
    with values_update [of k v al] have "v' \<notin> snd ` set (AList.update k v al)" by auto
    with Cons False p show ?thesis by (auto simp: image_iff)
  qed
qed

lemma wf_store_update:
  "wf_store al \<Longrightarrow> v \<notin> snd ` set al \<Longrightarrow> k \<noteq> [] \<Longrightarrow> wf_store (AList.update k v al)"
  by (auto simp: wf_store_def distinct_values_update keys_update)

lemma run_listener_plain:
  "ns \<noteq> Established \<Longrightarrow> ns \<noteq> Terminated \<Longrightarrow> run_listener r ns l s = (x, s') \<Longrightarrow>
   x = None \<and> activeSessions s' = activeSessions s \<and> sessions s' = sessions s"
  by (cases l) auto

lemma emit_plain:
  "ns \<noteq> Established \<Longrightarrow> ns \<noteq> Terminated \<Longrightarrow> emit ls r ns s = (x, s') \<Longrightarrow>
   x = None \<and> activeSessions s' = activeSessions s \<and> sessions s' = sessions s"
proof (induction ls arbitrary: s)
  case Nil
  then show ?case by simp
next
  case (Cons l ls)
  obtain y s1 where h: "run_listener r ns l s = (y, s1)" by (cases "run_listener r ns l s")
  note step = run_listener_plain [OF Cons.prems(1,2) h]
  with Cons.prems(3) h have "emit ls r ns s1 = (x, s')" by simp
  from Cons.IH [OF Cons.prems(1,2) this] step show ?case by simp
qed

text \<open>
  A sequence of announcements without Established, on a session that has a removing
  listener: nothing throws, and once Terminated has been announced the identifier is gone.
\<close>

lemma transitions_tracked:
  assumes "transitions r nss s = (x, s')" and "Established \<notin> set nss"
    and "tracked sessionId r (activeSessions s)"
    and "\<exists>l \<in> set (stateChange (sessions s r)). removes sessionId l"
  shows "x = None \<and> tracked sessionId r (activeSessions s') \<and>
         (sessionId \<notin> fst ` set (activeSessions s) \<longrightarrow> sessionId \<notin> fst ` set (activeSessions s')) \<and>
         (Terminated \<in> set nss \<longrightarrow> sessionId \<notin> fst ` set (activeSessions s'))"
  using assms
proof (induction nss arbitrary: s)
  case Nil
  then show ?case by simp
next
  case (Cons ns nss)
  let ?s0 = "set_state r ns s"
  obtain y s1 where h: "stateTransition r ns s = (y, s1)" by (cases "stateTransition r ns s")
  then have e: "emit (stateChange (sessions s r)) r ns ?s0 = (y, s1)"
    by (simp add: stateTransition_def set_state_def Let_def)
  from Cons.prems(2) have ne: "ns \<noteq> Established" and rest_ne: "Established \<notin> set nss" by auto
  have t0: "tracked sessionId r (activeSessions ?s0)"
    using Cons.prems(3) by (simp add: set_state_def)
  have step: "y = None \<and> tracked sessionId r (activeSessions s1) \<and> sessions s1 = sessions ?s0 \<and>
      (sessionId \<notin> fst ` set (activeSessions s) \<longrightarrow> sessionId \<notin> fst ` set (activeSessions s1)) \<and>
      (ns = Terminated \<longrightarrow> sessionId \<notin> fst ` set (activeSessions s1))"
  proof (cases "ns = Terminated")
    case True
    from e True have "emit (stateChange (sessions s r)) r Terminated ?s0 = (y, s1)" by simp
    from emit_Terminated [OF this t0] Cons.prems(4) show ?thesis
      by (simp add: set_state_def)
  next
    case False
    from emit_plain [OF ne False e] t0 show ?thesis
      by (simp add: set_state_def False)
  qed
  then have y: "y = None" and t1: "tracked sessionId r (activeSessions s1)" by simp_all
  from step have "stateChange (sessions s1 r) = stateChange (sessions s r)"
    by (simp add: set_state_def)
  with Cons.prems(4) have l1: "\<exists>l \<in> set (stateChange (sessions s1 r)). removes sessionId l" by simp
  from Cons.prems(1) h y have rest: "transitions r nss s1 = (x, s')" by simp
  note ih = Cons.IH [OF rest rest_ne t1 l1]
  from step ih show ?case by auto
qed

text \<open>What makeCall returns from the state in which it awaits the invite.\<close>

lemma inviting_simps:
  "activeSessions (inviting e target ts options s) =
     AList.update (generateSessionId e) (next_session s) (activeSessions s)"
  "streams (inviting e target ts options s) = (streams s)(next_stream s := ts)"
  "stateChange (sessions (inviting e target ts options s) (next_session s)) =
     [SessionListener (Some (next_stream s))]"
  by (simp_all add: inviting_def new_stream_def new_session_def setupSessionHandlers_def
                    log_effect_def Let_def)

lemma calls_inviting:
  "calls (inviting e target ts options s) =
     calls s @ [GetUserMedia (audio_opt options) (video_opt options), Invite (next_session s)]"
  by (simp add: inviting_def new_stream_def new_session_def setupSessionHandlers_def
                calls_log_effect Let_def)
     (simp add: log_effect_def)

lemma makeCall_unfold:
  assumes "userAgent s = Some ua" and "config s = Some cfg"
    and "makeURI e (''sip:'' @ targetUri @ ''@'' @ domain cfg) = Some target"
    and "getUserMedia e = Some ts"
  shows "makeCall e targetUri options s =
           (case library_call (invite e) (next_session s) (inviting e target ts options s) of
              (Some err, s6) \<Rightarrow> (Inl err, s6)
            | (None, s6) \<Rightarrow> (Inr (generateSessionId e), s6))"
  using assms
  by (simp add: makeCall_def inviting_def new_stream_def new_session_def setupSessionHandlers_def
                log_effect_def Let_def)

lemma calls_answerCall:
  assumes "map_of (activeSessions s) sessionId = Some r"
    and "cls (sessions s r) = Invitation"
    and "getUserMedia e = Some ts"
  shows "calls (snd (answerCall e sessionId options s)) =
           calls s @ [GetUserMedia (audio_opt options) (video_opt options), Accept r]"
proof -
  define s3 where "s3 = log_effect (Accept r)
     (setupSessionHandlers r (Some (next_stream s))
        (snd (new_stream ts (log_effect (GetUserMedia (audio_opt options) (video_opt options)) s))))"
  have c3: "calls s3 = calls s @ [GetUserMedia (audio_opt options) (video_opt options), Accept r]"
    by (simp add: s3_def setupSessionHandlers_def new_stream_def calls_log_effect)
  obtain x s4 where lc: "library_call (accept e) r s3 = (x, s4)"
    by (cases "library_call (accept e) r s3")
  have "calls (snd (answerCall e sessionId options s)) = calls s4"
    using assms lc
    by (cases x)
       (simp_all add: answerCall_def s3_def new_stream_def log_effect_def Let_def
                      updateCallSession_def calls_def)
  with calls_library_call [OF lc] c3 show ?thesis by simp
qed

subsection \<open>Well-formedness is an invariant\<close>

lemma wf_state_frame [simp]:
  "wf_state (s\<lparr>trace := t\<rparr>) = wf_state s"
  "wf_state (s\<lparr>sessions := b\<rparr>) = wf_state s"
  "wf_state (s\<lparr>streams := c\<rparr>) = wf_state s"
  "wf_state (s\<lparr>next_stream := d\<rparr>) = wf_state s"
  by (simp_all add: wf_state_def)

lemma wf_state_delete:
  "wf_state s \<Longrightarrow> wf_state (s\<lparr>activeSessions := AList.delete k (activeSessions s)\<rparr>)"
  by (auto simp: wf_state_def wf_store_delete mem_delete)

lemma wf_state_store:
  "wf_state s \<Longrightarrow> k \<noteq> [] \<Longrightarrow>
   wf_state (s\<lparr>activeSessions := AList.update k (next_session s) (activeSessions s),
               next_session := next_session s + 1\<rparr>)"
proof -
  assume wf: "wf_state s" and k: "k \<noteq> []"
  let ?al = "activeSessions s" and ?r = "next_session s"
  from wf have fresh: "?r \<notin> snd ` set ?al" by (auto simp: wf_state_def)
  with wf k have 1: "wf_store (AList.update k ?r ?al)" by (simp add: wf_state_def wf_store_update)
  have 2: "\<forall>p \<in> set (AList.update k ?r ?al). snd p < ?r + 1"
  proof
    fix p assume "p \<in> set (AList.update k ?r ?al)"
    then have "snd p \<in> snd ` set (AList.update k ?r ?al)" by (rule imageI)
    with values_update [of k ?r ?al] have "snd p = ?r \<or> snd p \<in> snd ` set ?al" by auto
    with wf show "snd p < ?r + 1" by (auto simp: wf_state_def)
  qed
  from 1 2 show ?thesis by (simp add: wf_state_def)
qed

lemma wf_state_notifyStateChange [simp]: "wf_state (notifyStateChange s r) = wf_state s"
  by (simp add: notifyStateChange_def updateCallSession_def log_effect_def split: option.splits)

lemma wf_state_cleanupSession: "wf_state s \<Longrightarrow> wf_state (cleanupSession s r)"
  by (auto simp: cleanupSession_def stopTracks_def Let_def wf_state_delete split: option.splits)

lemma wf_state_run_listener: "wf_state s \<Longrightarrow> run_listener r ns l s = (x, s') \<Longrightarrow> wf_state s'"
  by (cases l)
     (auto simp: wf_state_delete wf_state_cleanupSession
           split: if_splits option.splits)

lemma wf_state_emit: "wf_state s \<Longrightarrow> emit ls r ns s = (x, s') \<Longrightarrow> wf_state s'"
proof (induction ls arbitrary: s)
  case Nil
  then show ?case by simp
next
  case (Cons l ls)
  obtain y s1 where h: "run_listener r ns l s = (y, s1)" by (cases "run_listener r ns l s")
  from wf_state_run_listener [OF Cons.prems(1) h] have w1: "wf_state s1" .
  show ?case
  proof (cases y)
    case None
    with Cons.prems(2) h have "emit ls r ns s1 = (x, s')" by simp
    from Cons.IH [OF w1 this] show ?thesis .
  next
    case (Some e)
    with Cons.prems(2) h w1 show ?thesis by simp
  qed
qed

lemma wf_state_stateTransition:
  "wf_state s \<Longrightarrow> stateTransition r ns s = (x, s') \<Longrightarrow> wf_state s'"
  by (auto simp: stateTransition_def set_state_def Let_def elim: wf_state_emit [rotated])

lemma wf_state_transitions: "wf_state s \<Longrightarrow> transitions r nss s = (x, s') \<Longrightarrow> wf_state s'"
proof (induction nss arbitrary: s)
  case Nil
  then show ?case by simp
next
  case (Cons ns nss)
  obtain y s1 where h: "stateTransition r ns s = (y, s1)" by (cases "stateTransition r ns s")
  from wf_state_stateTransition [OF Cons.prems(1) h] have w1: "wf_state s1" .
  show ?case
  proof (cases y)
    case None
    with Cons.prems(2) h have "transitions r nss s1 = (x, s')" by simp
    from Cons.IH [OF w1 this] show ?thesis .
  next
    case (Some e)
    with Cons.prems(2) h w1 show ?thesis by simp
  qed
qed

lemma wf_state_library_call: "wf_state s \<Longrightarrow> library_call oc r s = (x, s') \<Longrightarrow> wf_state s'"
proof -
  assume wf: "wf_state s" and lc: "library_call oc r s = (x, s')"
  obtain y s1 where tr: "transitions r (fires oc) (install_handler r (handler oc) s) = (y, s1)"
    by (cases "transitions r (fires oc) (install_handler r (handler oc) s)")
  from wf have "wf_state (install_handler r (handler oc) s)"
    by (simp add: install_handler_def split: option.splits)
  from wf_state_transitions [OF this tr] have "wf_state s1" .
  with lc tr show ?thesis by (cases y) (auto simp: library_call_def)
qed

text \<open>
  Well-formedness is an invariant of the service: it holds initially and every operation
  and every announcement of the library preserves it.
\<close>

lemma wf_state_newSipService: "wf_state newSipService"
  by (simp add: wf_state_def wf_store_def newSipService_def)

lemma wf_state_initialize: "wf_state s \<Longrightarrow> wf_state (snd (initialize ok cfg s))"
  by (simp add: initialize_def wf_state_def)

lemma wf_state_makeCall: "wf_state s \<Longrightarrow> wf_state (snd (makeCall e targetUri options s))"
proof -
  assume wf: "wf_state s"
  have sid: "generateSessionId e \<noteq> []" by (simp add: generateSessionId_def)
  show ?thesis
  proof (cases "\<exists>ua cfg target ts. userAgent s = Some ua \<and> config s = Some cfg \<and>
      makeURI e (''sip:'' @ targetUri @ ''@'' @ domain cfg) = Some target \<and> getUserMedia e = Some ts")
    case True
    then obtain ua cfg target ts where a: "userAgent s = Some ua" "config s = Some cfg"
      "makeURI e (''sip:'' @ targetUri @ ''@'' @ domain cfg) = Some target" "getUserMedia e = Some ts"
      by blast
    have "wf_state (inviting e target ts options s)"
      using wf_state_store [OF wf sid]
      by (simp add: inviting_def new_stream_def new_session_def setupSessionHandlers_def
                    log_effect_def Let_def wf_state_def)
    moreover obtain x s6 where
      lc: "library_call (invite e) (next_session s) (inviting e target ts options s) = (x, s6)"
      by (cases "library_call (invite e) (next_session s) (inviting e target ts options s)")
    ultimately have "wf_state s6" by (rule wf_state_library_call)
    with makeCall_unfold [OF a, of options] lc show ?thesis by (cases x) simp_all
  next
    case False
    with wf show ?thesis
      by (auto simp: makeCall_def log_effect_def split: option.splits)
  qed
qed

lemma wf_state_onInvite: "wf_state s \<Longrightarrow> wf_state (snd (onInvite e st ri s))"
proof -
  assume wf: "wf_state s"
  have sid: "generateSessionId e \<noteq> []" by (simp add: generateSessionId_def)
  show ?thesis
  proof (cases ri)
    case None
    with wf show ?thesis
      by (auto simp: onInvite_def new_session_def wf_state_def)
  next
    case (Some u)
    with wf_state_store [OF wf sid] show ?thesis
      by (simp add: onInvite_def new_session_def handleIncomingCall_def log_effect_def Let_def
                    wf_state_def)
  qed
qed

lemma wf_state_answerCall: "wf_state s \<Longrightarrow> wf_state (snd (answerCall e sessionId options s))"
  by (auto simp: answerCall_def new_stream_def setupSessionHandlers_def log_effect_def Let_def
                 updateCallSession_def
           split: option.splits prod.splits
           elim!: wf_state_library_call [rotated])

lemma wf_state_rejectCall: "wf_state s \<Longrightarrow> wf_state (snd (rejectCall e sessionId s))"
  by (auto simp: rejectCall_def log_effect_def wf_state_delete
           split: option.splits prod.splits
           dest!: wf_state_library_call [rotated])

lemma wf_state_hangupCall: "wf_state s \<Longrightarrow> wf_state (snd (hangupCall e sessionId s))"
  by (auto simp: hangupCall_def hangup_signal_def cancel_session_def log_effect_def wf_state_delete
           split: option.splits prod.splits SessionState.splits
           dest!: wf_state_library_call [rotated])

lemma wf_state_toggles:
  "wf_state s \<Longrightarrow> wf_state (snd (toggleHold e sessionId s))"
  "wf_state s \<Longrightarrow> wf_state (snd (toggleMute e sessionId s))"
  "wf_state s \<Longrightarrow> wf_state (snd (sendDTMF e sessionId tone s))"
  by (auto simp: toggleHold_def toggleMute_def sendDTMF_def log_effect_def Let_def
           split: option.splits)

lemma wf_state_delegates:
  "wf_state s \<Longrightarrow> wf_state (onAccept sessionId r s)"
  "wf_state s \<Longrightarrow> wf_state (onReject sessionId s)"
  by (simp_all add: onAccept_def onReject_def updateCallSession_def log_effect_def wf_state_delete)

lemma wf_state_fresh:
  "wf_state s \<Longrightarrow> wf_store (activeSessions s) \<and> next_session s \<notin> snd ` set (activeSessions s)"
  by (auto simp: wf_state_def)

subsection \<open>Stored sessions are listened to and not Terminated\<close>

lemma mem_update_cases: "p \<in> set (AList.update k v al) \<Longrightarrow> p = (k, v) \<or> p \<in> set al"
  by (induction al) (auto split: if_splits)

lemma shrinks_refl [simp]: "shrinks s s"
  by (simp add: shrinks_def)

lemma shrinks_trans: "shrinks s s1 \<Longrightarrow> shrinks s1 s2 \<Longrightarrow> shrinks s s2"
  by (auto simp: shrinks_def)

lemma shrinks_notifyStateChange [simp]: "shrinks s (notifyStateChange s r)"
  by (simp add: shrinks_def)

lemma shrinks_delete [simp]:
  "shrinks s (s\<lparr>activeSessions := AList.delete k (activeSessions s)\<rparr>)"
  by (auto simp: shrinks_def mem_delete)

lemma shrinks_cleanupSession: "shrinks s (cleanupSession s r)"
  by (auto simp: shrinks_def activeSessions_cleanupSession mem_delete split: option.splits)

lemma shrinks_run_listener: "run_listener r ns l s = (x, s') \<Longrightarrow> shrinks s s'"
proof (cases l)
  case (IncomingListener k)
  assume "run_listener r ns l s = (x, s')"
  with IncomingListener show ?thesis by (auto split: if_splits)
next
  case (SessionListener localStream)
  assume h: "run_listener r ns l s = (x, s')"
  have cl: "shrinks s (notifyStateChange (cleanupSession s r) r)"
    using shrinks_cleanupSession [of s r] by (simp add: shrinks_def)
  from h SessionListener cl show ?thesis
    by (auto split: if_splits option.splits)
qed

lemma shrinks_emit: "emit ls r ns s = (x, s') \<Longrightarrow> shrinks s s'"
proof (induction ls arbitrary: s)
  case Nil
  then show ?case by simp
next
  case (Cons l ls)
  obtain y s1 where h: "run_listener r ns l s = (y, s1)" by (cases "run_listener r ns l s")
  note step = shrinks_run_listener [OF h]
  show ?case
  proof (cases y)
    case None
    with Cons.prems h have "emit ls r ns s1 = (x, s')" by simp
    from shrinks_trans [OF step Cons.IH [OF this]] show ?thesis .
  next
    case (Some e)
    with Cons.prems h step show ?thesis by simp
  qed
qed

lemma listened_shrinks: "listened s \<Longrightarrow> shrinks s s' \<Longrightarrow> listened s'"
  by (auto simp: listened_def shrinks_def)

lemma live_shrinks: "live s \<Longrightarrow> shrinks s s' \<Longrightarrow> live s'"
  by (auto simp: live_def shrinks_def)

lemma listened_set_state: "listened (set_state r ns s) = listened s"
  by (auto simp: listened_def set_state_def)

lemma reachable_inv_stateTransition:
  assumes "reachable_inv s" and "stateTransition r ns s = (x, s')"
  shows "reachable_inv s'"
proof -
  let ?s0 = "set_state r ns s"
  from assms(1) have wf: "wf_state s" and li: "listened s" and lv: "live s"
    by (simp_all add: reachable_inv_def)
  have e: "emit (stateChange (sessions s r)) r ns ?s0 = (x, s')"
    using assms(2) by (simp add: stateTransition_def set_state_def Let_def)
  note sh = shrinks_emit [OF e]
  have wf': "wf_state s'" by (rule wf_state_stateTransition [OF wf assms(2)])
  from li have "listened ?s0" by (simp add: listened_set_state)
  from listened_shrinks [OF this sh] have li': "listened s'" .
  have lv': "live s'"
  proof (cases "ns = Terminated")
    case False
    with lv have "live ?s0" by (auto simp: live_def set_state_def)
    from live_shrinks [OF this sh] show ?thesis .
  next
    case True
    show ?thesis
      unfolding live_def
    proof
      fix p assume p': "p \<in> set (activeSessions s')"
      with sh have p: "p \<in> set (activeSessions s)" by (auto simp: shrinks_def set_state_def)
      have "snd p \<noteq> r"
      proof
        assume eq: "snd p = r"
        then have mem: "(fst p, r) \<in> set (activeSessions s)" using p by (cases p) simp
        from wf have wfs: "wf_store (activeSessions s)" by (simp add: wf_state_def)
        from li p eq have ls: "\<exists>l \<in> set (stateChange (sessions s r)). removes (fst p) l"
          by (auto simp: listened_def)
        from assms(2) True have st: "stateTransition r Terminated s = (x, s')" by simp
        from stateTransition_Terminated [OF st wfs mem ls]
        have "fst p \<notin> fst ` set (activeSessions s')" by (simp add: map_of_eq_None_iff)
        with p' show False by blast
      qed
      moreover from lv p have "state (sessions s (snd p)) \<noteq> Terminated" by (auto simp: live_def)
      ultimately have "state (sessions ?s0 (snd p)) \<noteq> Terminated" by (simp add: set_state_def)
      with sh show "state (sessions s' (snd p)) \<noteq> Terminated" by (simp add: shrinks_def)
    qed
  qed
  from wf' li' lv' show ?thesis by (simp add: reachable_inv_def)
qed

lemma reachable_inv_transitions:
  "reachable_inv s \<Longrightarrow> transitions r nss s = (x, s') \<Longrightarrow> reachable_inv s'"
proof (induction nss arbitrary: s)
  case Nil
  then show ?case by simp
next
  case (Cons ns nss)
  obtain y s1 where h: "stateTransition r ns s = (y, s1)" by (cases "stateTransition r ns s")
  from reachable_inv_stateTransition [OF Cons.prems(1) h] have i1: "reachable_inv s1" .
  show ?case
  proof (cases y)
    case None
    with Cons.prems(2) h have "transitions r nss s1 = (x, s')" by simp
    from Cons.IH [OF i1 this] show ?thesis .
  next
    case (Some e)
    with Cons.prems(2) h i1 show ?thesis by simp
  qed
qed

lemma reachable_inv_frame [simp]:
  "reachable_inv (s\<lparr>trace := t\<rparr>) = reachable_inv s"
  "reachable_inv (s\<lparr>streams := c\<rparr>) = reachable_inv s"
  "reachable_inv (s\<lparr>next_stream := d\<rparr>) = reachable_inv s"
  by (simp_all add: reachable_inv_def listened_def live_def)

lemma reachable_inv_sessions_upd:
  "reachable_inv s \<Longrightarrow> state obj = state (sessions s r) \<Longrightarrow>
   stateChange obj = stateChange (sessions s r) @ ls \<Longrightarrow>
   reachable_inv (s\<lparr>sessions := (sessions s)(r := obj)\<rparr>)"
  by (auto simp: reachable_inv_def listened_def live_def)

lemma reachable_inv_delete:
  "reachable_inv s \<Longrightarrow> reachable_inv (s\<lparr>activeSessions := AList.delete k (activeSessions s)\<rparr>)"
  by (auto simp: reachable_inv_def wf_state_delete listened_def live_def mem_delete)

lemma reachable_inv_library_call:
  assumes "reachable_inv s" and "library_call oc r s = (x, s')"
  shows "reachable_inv s'"
proof -
  let ?s0 = "install_handler r (handler oc) s"
  obtain y s1 where tr: "transitions r (fires oc) ?s0 = (y, s1)"
    by (cases "transitions r (fires oc) ?s0")
  have "reachable_inv ?s0"
  proof (cases "handler oc")
    case None
    with assms(1) show ?thesis by (simp add: install_handler_def)
  next
    case (Some h)
    from reachable_inv_sessions_upd [OF assms(1), where ls = "[]" and r = r
          and obj = "(sessions s r)\<lparr>sessionDescriptionHandler := Some h\<rparr>"] Some
    show ?thesis by (simp add: install_handler_def)
  qed
  from reachable_inv_transitions [OF this tr] have "reachable_inv s1" .
  with assms(2) tr show ?thesis by (cases y) (auto simp: library_call_def)
qed

lemma reachable_inv_newSipService: "reachable_inv newSipService"
  using wf_state_newSipService
  by (simp add: reachable_inv_def listened_def live_def newSipService_def)

lemma reachable_inv_initialize: "reachable_inv s \<Longrightarrow> reachable_inv (snd (initialize ok cfg s))"
  by (simp add: initialize_def reachable_inv_def wf_state_def listened_def live_def)

text \<open>Storing a newly created session that has a removing listener and is not Terminated.\<close>

lemma reachable_inv_store:
  assumes "reachable_inv s" and "k \<noteq> []" and "state obj \<noteq> Terminated"
    and "\<exists>l \<in> set (stateChange obj). removes k l"
  shows "reachable_inv
           (s\<lparr>activeSessions := AList.update k (next_session s) (activeSessions s),
              sessions := (sessions s)(next_session s := obj),
              next_session := next_session s + 1\<rparr>)"
proof -
  let ?r = "next_session s"
  let ?s' = "s\<lparr>activeSessions := AList.update k ?r (activeSessions s),
              sessions := (sessions s)(?r := obj), next_session := ?r + 1\<rparr>"
  from assms(1) have wf: "wf_state s" and li: "listened s" and lv: "live s"
    by (simp_all add: reachable_inv_def)
  from wf_state_store [OF wf assms(2)] have wf': "wf_state ?s'" by (simp add: wf_state_def)
  have old: "\<And>p. p \<in> set (activeSessions s) \<Longrightarrow> snd p \<noteq> ?r"
    using wf by (auto simp: wf_state_def)
  have li': "listened ?s'"
    unfolding listened_def
  proof
    fix p assume "p \<in> set (activeSessions ?s')"
    then have "p = (k, ?r) \<or> p \<in> set (activeSessions s)" by (auto dest: mem_update_cases)
    then show "\<exists>l \<in> set (stateChange (sessions ?s' (snd p))). removes (fst p) l"
    proof
      assume "p = (k, ?r)"
      with assms(4) show ?thesis by simp
    next
      assume p: "p \<in> set (activeSessions s)"
      with li old [OF p] show ?thesis by (auto simp: listened_def)
    qed
  qed
  have lv': "live ?s'"
    unfolding live_def
  proof
    fix p assume "p \<in> set (activeSessions ?s')"
    then have "p = (k, ?r) \<or> p \<in> set (activeSessions s)" by (auto dest: mem_update_cases)
    then show "state (sessions ?s' (snd p)) \<noteq> Terminated"
    proof
      assume "p = (k, ?r)"
      with assms(3) show ?thesis by simp
    next
      assume p: "p \<in> set (activeSessions s)"
      with lv old [OF p] show ?thesis by (auto simp: live_def)
    qed
  qed
  from wf' li' lv' show ?thesis by (simp add: reachable_inv_def)
qed

lemma reachable_inv_inviting:
  assumes "reachable_inv s"
  shows "reachable_inv (inviting e target ts options s)"
proof -
  have sid: "generateSessionId e \<noteq> []" by (simp add: generateSessionId_def)
  let ?obj = "\<lparr> cls = Inviter, state = Initial, remoteIdentity = Some target, startTime = None,
       sessionDescriptionHandler = None, stateChange = [SessionListener (Some (next_stream s))] \<rparr>"
  from reachable_inv_store [OF assms sid, of ?obj]
  have "reachable_inv
          (s\<lparr>activeSessions := AList.update (generateSessionId e) (next_session s) (activeSessions s),
             sessions := (sessions s)(next_session s := ?obj),
             next_session := next_session s + 1\<rparr>)" by simp
  then show ?thesis
    by (simp add: inviting_def new_stream_def new_session_def setupSessionHandlers_def
                  log_effect_def Let_def reachable_inv_def wf_state_def listened_def live_def)
qed

lemma reachable_inv_makeCall:
  assumes "reachable_inv s"
  shows "reachable_inv (snd (makeCall e targetUri options s))"
proof (cases "\<exists>ua cfg target ts. userAgent s = Some ua \<and> config s = Some cfg \<and>
      makeURI e (''sip:'' @ targetUri @ ''@'' @ domain cfg) = Some target \<and> getUserMedia e = Some ts")
  case True
  then obtain ua cfg target ts where a: "userAgent s = Some ua" "config s = Some cfg"
    "makeURI e (''sip:'' @ targetUri @ ''@'' @ domain cfg) = Some target" "getUserMedia e = Some ts"
    by blast
  obtain x s6 where
    lc: "library_call (invite e) (next_session s) (inviting e target ts options s) = (x, s6)"
    by (cases "library_call (invite e) (next_session s) (inviting e target ts options s)")
  from reachable_inv_library_call [OF reachable_inv_inviting [OF assms] lc]
  have "reachable_inv s6" .
  with makeCall_unfold [OF a, of options] lc show ?thesis by (cases x) simp_all
next
  case False
  with assms show ?thesis
    by (auto simp: makeCall_def log_effect_def split: option.splits)
qed

lemma reachable_inv_new_session:
  assumes "reachable_inv s"
  shows "reachable_inv (snd (new_session c st ri s))"
proof -
  from assms have old: "\<And>p. p \<in> set (activeSessions s) \<Longrightarrow> snd p \<noteq> next_session s"
    by (auto simp: reachable_inv_def wf_state_def)
  with assms show ?thesis
    by (auto simp: new_session_def reachable_inv_def wf_state_def listened_def live_def)
qed

lemma reachable_inv_onInvite:
  assumes "reachable_inv s" and "st \<noteq> Terminated"
  shows "reachable_inv (snd (onInvite e st ri s))"
proof (cases ri)
  case None
  with reachable_inv_new_session [OF assms(1), of Invitation st ri] show ?thesis
    by (simp add: onInvite_def split_def)
next
  case (Some u)
  have sid: "generateSessionId e \<noteq> []" by (simp add: generateSessionId_def)
  let ?obj = "\<lparr> cls = Invitation, state = st, remoteIdentity = ri, startTime = None,
       sessionDescriptionHandler = None, stateChange = [IncomingListener (generateSessionId e)] \<rparr>"
  from reachable_inv_store [OF assms(1) sid, of ?obj] assms(2)
  have "reachable_inv
          (s\<lparr>activeSessions := AList.update (generateSessionId e) (next_session s) (activeSessions s),
             sessions := (sessions s)(next_session s := ?obj),
             next_session := next_session s + 1\<rparr>)" by simp
  with Some show ?thesis
    by (simp add: onInvite_def new_session_def handleIncomingCall_def
                  log_effect_def Let_def reachable_inv_def wf_state_def listened_def live_def)
qed

lemma reachable_inv_setupSessionHandlers:
  "reachable_inv s \<Longrightarrow> reachable_inv (setupSessionHandlers r localStream s)"
  unfolding setupSessionHandlers_def
  by (rule reachable_inv_sessions_upd [where ls = "[SessionListener localStream]"]) simp_all

lemma reachable_inv_answerCall:
  assumes "reachable_inv s"
  shows "reachable_inv (snd (answerCall e sessionId options s))"
proof (cases "\<exists>r ts. map_of (activeSessions s) sessionId = Some r \<and>
    cls (sessions s r) = Invitation \<and> getUserMedia e = Some ts")
  case True
  then obtain r ts where a: "map_of (activeSessions s) sessionId = Some r"
    "cls (sessions s r) = Invitation" "getUserMedia e = Some ts" by blast
  let ?s3 = "log_effect (Accept r)
     (setupSessionHandlers r (Some (next_stream s))
        (snd (new_stream ts (log_effect (GetUserMedia (audio_opt options) (video_opt options)) s))))"
  have i3: "reachable_inv ?s3"
    using reachable_inv_setupSessionHandlers [of
            "snd (new_stream ts (log_effect (GetUserMedia (audio_opt options) (video_opt options)) s))"
            r "Some (next_stream s)"] assms
    by (simp add: log_effect_def new_stream_def)
  obtain x s4 where lc: "library_call (accept e) r ?s3 = (x, s4)"
    by (cases "library_call (accept e) r ?s3")
  from reachable_inv_library_call [OF i3 lc] have "reachable_inv s4" .
  with a lc show ?thesis
    by (cases x)
       (simp_all add: answerCall_def new_stream_def log_effect_def Let_def updateCallSession_def)
next
  case False
  with assms show ?thesis
    by (auto simp: answerCall_def log_effect_def split: option.splits)
qed

lemma reachable_inv_rejectCall:
  assumes "reachable_inv s"
  shows "reachable_inv (snd (rejectCall e sessionId s))"
proof (cases "\<exists>r. map_of (activeSessions s) sessionId = Some r \<and> cls (sessions s r) = Invitation")
  case True
  then obtain r where a: "map_of (activeSessions s) sessionId = Some r"
    "cls (sessions s r) = Invitation" by blast
  obtain x s1 where lc: "library_call (reject e) r (log_effect (Reject r) s) = (x, s1)"
    by (cases "library_call (reject e) r (log_effect (Reject r) s)")
  from assms have "reachable_inv (log_effect (Reject r) s)" by (simp add: log_effect_def)
  from reachable_inv_library_call [OF this lc] have "reachable_inv s1" .
  with a lc show ?thesis
    by (cases x) (simp_all add: rejectCall_def reachable_inv_delete)
next
  case False
  with assms show ?thesis
    by (auto simp: rejectCall_def split: option.splits)
qed

lemma reachable_inv_hangup_signal:
  "reachable_inv s \<Longrightarrow> hangup_signal e r s = (x, s') \<Longrightarrow> reachable_inv s'"
proof -
  assume i: "reachable_inv s" and h: "hangup_signal e r s = (x, s')"
  have l: "\<And>y. reachable_inv (log_effect y s)" using i by (simp add: log_effect_def)
  from h i show ?thesis
    by (cases "state (sessions s r)")
       (auto simp: hangup_signal_def cancel_session_def split: if_splits
             intro: reachable_inv_library_call [OF l])
qed

lemma reachable_inv_hangupCall:
  assumes "reachable_inv s"
  shows "reachable_inv (snd (hangupCall e sessionId s))"
proof (cases "map_of (activeSessions s) sessionId")
  case None
  with assms show ?thesis by (simp add: hangupCall_def)
next
  case (Some r)
  obtain x s1 where h: "hangup_signal e r s = (x, s1)" by (cases "hangup_signal e r s")
  from reachable_inv_hangup_signal [OF assms h] have "reachable_inv s1" .
  with Some h show ?thesis
    by (cases x) (simp_all add: hangupCall_def reachable_inv_delete)
qed

lemma reachable_inv_toggles:
  "reachable_inv s \<Longrightarrow> reachable_inv (snd (toggleHold e sessionId s))"
  "reachable_inv s \<Longrightarrow> reachable_inv (snd (toggleMute e sessionId s))"
  "reachable_inv s \<Longrightarrow> reachable_inv (snd (sendDTMF e sessionId tone s))"
  by (auto simp: toggleHold_def toggleMute_def sendDTMF_def log_effect_def Let_def
           split: option.splits)

lemma reachable_inv_delegates:
  "reachable_inv s \<Longrightarrow> reachable_inv (onAccept sessionId r s)"
  "reachable_inv s \<Longrightarrow> reachable_inv (onReject sessionId s)"
  by (simp_all add: onAccept_def onReject_def updateCallSession_def log_effect_def
                    reachable_inv_delete)

text \<open>What the invariant gives for a stored session.\<close>

lemma reachable_inv_stored:
  assumes "reachable_inv s" and "map_of (activeSessions s) sessionId = Some r"
  shows "wf_store (activeSessions s) \<and> (sessionId, r) \<in> set (activeSessions s) \<and>
         (\<exists>l \<in> set (stateChange (sessions s r)). removes sessionId l) \<and>
         state (sessions s r) \<noteq> Terminated \<and>
         next_session s \<notin> snd ` set (activeSessions s)"
proof -
  from assms(2) have mem: "(sessionId, r) \<in> set (activeSessions s)" by (rule map_of_SomeD)
  from assms(1) have "wf_state s" and li: "listened s" and lv: "live s"
    by (simp_all add: reachable_inv_def)
  then have wf: "wf_store (activeSessions s)"
    and fresh: "next_session s \<notin> snd ` set (activeSessions s)"
    by (auto simp: wf_state_def)
  from li mem have "\<exists>l \<in> set (stateChange (sessions s (snd (sessionId, r)))). removes (fst (sessionId, r)) l"
    unfolding listened_def by (rule bspec)
  moreover from lv mem have "state (sessions s (snd (sessionId, r))) \<noteq> Terminated"
    unfolding live_def by (rule bspec)
  ultimately show ?thesis using wf mem fresh by simp
qed

text \<open>The concrete states used below are states the service reaches.\<close>

lemma reachable_inv_s_init: "reachable_inv s_init"
  unfolding s_init_def by (rule reachable_inv_initialize [OF reachable_inv_newSipService])

lemma reachable_inv_s_calling: "reachable_inv s_calling"
  unfolding s_calling_def by (rule reachable_inv_makeCall [OF reachable_inv_s_init])

lemma reachable_inv_s_talking: "reachable_inv s_talking"
  unfolding s_talking_def
  by (rule reachable_inv_stateTransition [OF reachable_inv_s_calling]) (rule prod.collapse [symmetric])

lemma reachable_inv_s_ringing: "reachable_inv s_ringing"
  unfolding s_ringing_def by (rule reachable_inv_onInvite [OF reachable_inv_s_init]) simp


subsection \<open>Bystanders of an announcement\<close>

lemma sessions_notifyStateChange [simp]: "sessions (notifyStateChange s r) = sessions s"
  by (simp add: notifyStateChange_def updateCallSession_def log_effect_def split: option.splits)

lemma sessions_run_listener: "run_listener r ns l s = (x, s') \<Longrightarrow> sessions s' = sessions s"
  by (cases l) (auto split: if_splits option.splits)

lemma getSessionId_loop_mem: "getSessionId_loop al r = Some k \<Longrightarrow> (k, r) \<in> set al"
  by (induction al) (auto split: if_splits)

lemma distinct_keys_unique:
  "distinct (map fst al) \<Longrightarrow> (k, a) \<in> set al \<Longrightarrow> (k, b) \<in> set al \<Longrightarrow> a = b"
  by (induction al) (auto simp: image_iff)

lemma listed_keys: "listed s k \<longleftrightarrow> k \<in> fst ` set (activeSessions s)"
  by (simp add: listed_def getActiveSessions_ids)

lemma bystander_listed: "bystander s k r0 \<Longrightarrow> listed s k"
  by (auto simp: bystander_def listed_keys)

text \<open>Deleting a key that is not the bystander's keeps the bystander.\<close>

lemma bystander_delete:
  assumes "bystander s k r0" and "k' \<noteq> k"
  shows "bystander (s\<lparr>activeSessions := AList.delete k' (activeSessions s)\<rparr>) k r0"
proof -
  from assms(1) obtain p where p: "p \<in> set (activeSessions s)" "fst p = k" "snd p \<noteq> r0"
    and d: "distinct (map fst (activeSessions s))" and o: "owns s r0"
    by (auto simp: bystander_def)
  from p assms(2) have "p \<in> set (AList.delete k' (activeSessions s))"
    by (metis mem_delete prod.collapse)
  moreover from d have "distinct (map fst (AList.delete k' (activeSessions s)))"
    by (rule AList.distinct_delete)
  moreover from o have "owns (s\<lparr>activeSessions := AList.delete k' (activeSessions s)\<rparr>) r0"
    by (auto simp: owns_def AList.delete_eq)
  ultimately show ?thesis using p by (auto simp: bystander_def)
qed

lemma bystander_notifyStateChange [simp]: "bystander (notifyStateChange s r) k r0 = bystander s k r0"
  by (simp add: bystander_def owns_def)

lemma bystander_cleanupSession:
  assumes "bystander s k r0"
  shows "bystander (cleanupSession s r0) k r0"
proof -
  from assms obtain p where p: "p \<in> set (activeSessions s)" "fst p = k" "snd p \<noteq> r0"
    and d: "distinct (map fst (activeSessions s))"
    by (auto simp: bystander_def)
  have key: "getSessionId_loop (activeSessions s) r0 = Some k' \<Longrightarrow> k' \<noteq> k" for k'
  proof
    assume g: "getSessionId_loop (activeSessions s) r0 = Some k'" and eq: "k' = k"
    from getSessionId_loop_mem [OF g] eq have "(k, r0) \<in> set (activeSessions s)" by simp
    moreover from p have "(k, snd p) \<in> set (activeSessions s)" by (metis prod.collapse)
    ultimately have "r0 = snd p" using d by (rule distinct_keys_unique [rotated])
    with p show False by simp
  qed
  have shape: "\<And>t. bystander t k r0 \<Longrightarrow>
      bystander (case sessionDescriptionHandler (sessions t r0) of
                   None \<Rightarrow> t
                 | Some h \<Rightarrow> (case localMediaStream h of None \<Rightarrow> t | Some m \<Rightarrow> stopTracks m t)) k r0"
    by (simp add: bystander_def owns_def stopTracks_def split: option.splits)
  show ?thesis
    unfolding cleanupSession_def Let_def getSessionId_def
    by (rule shape) (auto split: option.splits intro: bystander_delete [OF assms] dest: key simp: assms)
qed

lemma run_listener_bystander:
  assumes "run_listener r0 ns l s = (x, s')" and "l \<in> set (stateChange (sessions s r0))"
    and "bystander s k r0"
  shows "bystander s' k r0"
proof (cases l)
  case (IncomingListener k')
  have "k' \<noteq> k"
  proof
    assume eq: "k' = k"
    from assms(3) obtain p where p: "p \<in> set (activeSessions s)" "fst p = k" "snd p \<noteq> r0"
      and o: "owns s r0" by (auto simp: bystander_def)
    from o assms(2) p IncomingListener eq show False by (auto simp: owns_def)
  qed
  from bystander_delete [OF assms(3) this] assms(1,3) IncomingListener show ?thesis
    by (auto split: if_splits)
next
  case (SessionListener localStream)
  with assms(1,3) bystander_cleanupSession [OF assms(3)] show ?thesis
    by (auto split: if_splits option.splits)
qed

lemma emit_bystander:
  assumes "emit ls r0 ns s = (x, s')" and "set ls \<subseteq> set (stateChange (sessions s r0))"
    and "bystander s k r0"
  shows "bystander s' k r0"
  using assms
proof (induction ls arbitrary: s)
  case Nil
  then show ?case by simp
next
  case (Cons l ls)
  obtain y s1 where h: "run_listener r0 ns l s = (y, s1)" by (cases "run_listener r0 ns l s")
  from Cons.prems(2) have l: "l \<in> set (stateChange (sessions s r0))" by simp
  from run_listener_bystander [OF h l Cons.prems(3)] have b1: "bystander s1 k r0" .
  from sessions_run_listener [OF h] Cons.prems(2)
  have sub: "set ls \<subseteq> set (stateChange (sessions s1 r0))" by simp
  show ?case
  proof (cases y)
    case None
    with Cons.prems(1) h have "emit ls r0 ns s1 = (x, s')" by simp
    from Cons.IH [OF this sub b1] show ?thesis .
  next
    case (Some err)
    with Cons.prems(1) h b1 show ?thesis by simp
  qed
qed

lemma bystander_sessions_upd:
  "bystander s k r0 \<Longrightarrow> set (stateChange obj) \<inter> range IncomingListener \<subseteq> set (stateChange (sessions s r)) \<Longrightarrow>
   bystander (s\<lparr>sessions := (sessions s)(r := obj)\<rparr>) k r0"
  by (auto simp: bystander_def owns_def)

lemma stateTransition_bystander:
  assumes "stateTransition r0 ns s = (x, s')" and "bystander s k r0"
  shows "bystander s' k r0"
proof -
  let ?s0 = "set_state r0 ns s"
  have e: "emit (stateChange (sessions s r0)) r0 ns ?s0 = (x, s')"
    using assms(1) by (simp add: stateTransition_def set_state_def Let_def)
  have b0: "bystander ?s0 k r0"
    unfolding set_state_def by (rule bystander_sessions_upd [OF assms(2)]) auto
  have sub: "set (stateChange (sessions s r0)) \<subseteq> set (stateChange (sessions ?s0 r0))"
    by (simp add: set_state_def)
  from emit_bystander [OF e sub b0] show ?thesis .
qed

lemma transitions_bystander:
  "transitions r0 nss s = (x, s') \<Longrightarrow> bystander s k r0 \<Longrightarrow> bystander s' k r0"
proof (induction nss arbitrary: s)
  case Nil
  then show ?case by simp
next
  case (Cons ns nss)
  obtain y s1 where h: "stateTransition r0 ns s = (y, s1)" by (cases "stateTransition r0 ns s")
  from stateTransition_bystander [OF h Cons.prems(2)] have b1: "bystander s1 k r0" .
  show ?case
  proof (cases y)
    case None
    with Cons.prems(1) h have "transitions r0 nss s1 = (x, s')" by simp
    from Cons.IH [OF this b1] show ?thesis .
  next
    case (Some err)
    with Cons.prems(1) h b1 show ?thesis by simp
  qed
qed

lemma library_call_bystander:
  assumes "library_call oc r0 s = (x, s')" and "bystander s k r0"
  shows "bystander s' k r0"
proof -
  let ?s0 = "install_handler r0 (handler oc) s"
  obtain y s1 where tr: "transitions r0 (fires oc) ?s0 = (y, s1)"
    by (cases "transitions r0 (fires oc) ?s0")
  have "bystander ?s0 k r0"
  proof (cases "handler oc")
    case None
    with assms(2) show ?thesis by (simp add: install_handler_def)
  next
    case (Some h)
    have "bystander (s\<lparr>sessions := (sessions s)(r0 := (sessions s r0)\<lparr>sessionDescriptionHandler := Some h\<rparr>)\<rparr>) k r0"
      by (rule bystander_sessions_upd [OF assms(2)]) auto
    with Some show ?thesis by (simp add: install_handler_def)
  qed
  from transitions_bystander [OF tr this] have "bystander s1 k r0" .
  with assms(1) tr show ?thesis by (cases y) (auto simp: library_call_def)
qed


subsection \<open>Bystanders of an operation\<close>

lemma bystander_frame [simp]:
  "bystander (s\<lparr>trace := t\<rparr>) k r0 = bystander s k r0"
  "bystander (s\<lparr>streams := st\<rparr>) k r0 = bystander s k r0"
  "bystander (s\<lparr>next_stream := n\<rparr>) k r0 = bystander s k r0"
  by (simp_all add: bystander_def owns_def)

lemma hangup_signal_bystander:
  "hangup_signal e r0 s = (x, s') \<Longrightarrow> bystander s k r0 \<Longrightarrow> bystander s' k r0"
proof -
  assume h: "hangup_signal e r0 s = (x, s')" and b: "bystander s k r0"
  have l: "\<And>y. bystander (log_effect y s) k r0" using b by (simp add: log_effect_def)
  from h b show ?thesis
    by (cases "state (sessions s r0)")
       (auto simp: hangup_signal_def cancel_session_def split: if_splits
             intro: library_call_bystander [OF _ l])
qed

lemma bystander_other:
  assumes "bystander s k r0" and "map_of (activeSessions s) sessionId = Some r0"
  shows "sessionId \<noteq> k"
proof
  assume eq: "sessionId = k"
  from assms(1) obtain p where p: "p \<in> set (activeSessions s)" "fst p = k" "snd p \<noteq> r0"
    and d: "distinct (map fst (activeSessions s))" by (auto simp: bystander_def)
  from p have "(k, snd p) \<in> set (activeSessions s)" by (metis prod.collapse)
  moreover from assms(2) eq have "(k, r0) \<in> set (activeSessions s)" by (simp add: map_of_SomeD)
  ultimately have "snd p = r0" using d by (rule distinct_keys_unique [rotated])
  with p show False by simp
qed

lemma hangupCall_bystander:
  assumes "bystander s k r0" and "map_of (activeSessions s) sessionId = Some r0"
  shows "bystander (snd (hangupCall e sessionId s)) k r0"
proof -
  obtain x s1 where h: "hangup_signal e r0 s = (x, s1)" by (cases "hangup_signal e r0 s")
  from hangup_signal_bystander [OF h assms(1)] have b1: "bystander s1 k r0" .
  from bystander_other [OF assms] have ne: "sessionId \<noteq> k" .
  from bystander_delete [OF b1 ne] b1 assms(2) h show ?thesis
    by (cases x) (simp_all add: hangupCall_def)
qed

lemma rejectCall_bystander:
  assumes "bystander s k r0" and "map_of (activeSessions s) sessionId = Some r0"
  shows "bystander (snd (rejectCall e sessionId s)) k r0"
proof (cases "cls (sessions s r0) = Invitation")
  case True
  obtain x s1 where lc: "library_call (reject e) r0 (log_effect (Reject r0) s) = (x, s1)"
    by (cases "library_call (reject e) r0 (log_effect (Reject r0) s)")
  from assms(1) have "bystander (log_effect (Reject r0) s) k r0" by (simp add: log_effect_def)
  from library_call_bystander [OF lc this] have b1: "bystander s1 k r0" .
  from bystander_other [OF assms] have ne: "sessionId \<noteq> k" .
  from bystander_delete [OF b1 ne] b1 assms(2) lc True show ?thesis
    by (cases x) (simp_all add: rejectCall_def)
next
  case False
  with assms show ?thesis by (simp add: rejectCall_def)
qed

lemma bystander_setupSessionHandlers:
  "bystander s k r0 \<Longrightarrow> bystander (setupSessionHandlers r localStream s) k r0"
  unfolding setupSessionHandlers_def
  by (rule bystander_sessions_upd) auto

lemma updateCallSession_bystander [simp]:
  "bystander (updateCallSession s sessionId r) k r0 = bystander s k r0"
  by (simp add: updateCallSession_def log_effect_def)

lemma answerCall_bystander:
  assumes "bystander s k r0" and "map_of (activeSessions s) sessionId = Some r0"
  shows "bystander (snd (answerCall e sessionId options s)) k r0"
proof (cases "\<exists>ts. cls (sessions s r0) = Invitation \<and> getUserMedia e = Some ts")
  case True
  then obtain ts where a: "cls (sessions s r0) = Invitation" "getUserMedia e = Some ts" by blast
  let ?s3 = "log_effect (Accept r0)
     (setupSessionHandlers r0 (Some (next_stream s))
        (snd (new_stream ts (log_effect (GetUserMedia (audio_opt options) (video_opt options)) s))))"
  have b3: "bystander ?s3 k r0"
    using bystander_setupSessionHandlers [of
            "snd (new_stream ts (log_effect (GetUserMedia (audio_opt options) (video_opt options)) s))"
            k r0 r0 "Some (next_stream s)"] assms(1)
    by (simp add: log_effect_def new_stream_def)
  obtain x s4 where lc: "library_call (accept e) r0 ?s3 = (x, s4)"
    by (cases "library_call (accept e) r0 ?s3")
  from library_call_bystander [OF lc b3] have "bystander s4 k r0" .
  with a assms(2) lc show ?thesis
    by (cases x) (simp_all add: answerCall_def new_stream_def log_effect_def Let_def)
next
  case False
  with assms show ?thesis
    by (auto simp: answerCall_def log_effect_def split: option.splits)
qed

lemma mem_update_other: "(k, v) \<in> set al \<Longrightarrow> k \<noteq> k' \<Longrightarrow> (k, v) \<in> set (AList.update k' v' al)"
  by (induction al) auto

text \<open>A call placed under a new identifier leaves the identifiers listed before listed.\<close>

lemma makeCall_listed:
  assumes "listed s k" and "k \<noteq> generateSessionId e" and "wf_state s"
    and "distinct (map fst (activeSessions s))"
  shows "listed (snd (makeCall e targetUri options s)) k"
proof (cases "\<exists>ua cfg target ts. userAgent s = Some ua \<and> config s = Some cfg \<and>
      makeURI e (''sip:'' @ targetUri @ ''@'' @ domain cfg) = Some target \<and> getUserMedia e = Some ts")
  case True
  then obtain ua cfg target ts where a: "userAgent s = Some ua" "config s = Some cfg"
    "makeURI e (''sip:'' @ targetUri @ ''@'' @ domain cfg) = Some target" "getUserMedia e = Some ts"
    by blast
  let ?s5 = "inviting e target ts options s"
  obtain x s6 where lc: "library_call (invite e) (next_session s) ?s5 = (x, s6)"
    by (cases "library_call (invite e) (next_session s) ?s5")
  from assms(1) obtain r where mem: "(k, r) \<in> set (activeSessions s)"
    by (auto simp: listed_keys)
  from assms(3) mem have ne: "r \<noteq> next_session s" by (force simp: wf_state_def)
  from mem_update_other [OF mem assms(2)]
  have "(k, r) \<in> set (activeSessions ?s5)" by (simp add: inviting_simps)
  moreover from assms(4) have "distinct (map fst (activeSessions ?s5))"
    by (simp add: inviting_simps AList.distinct_update)
  moreover have "owns ?s5 (next_session s)" by (simp add: owns_def inviting_simps)
  ultimately have "bystander ?s5 k (next_session s)" using ne by (force simp: bystander_def)
  from library_call_bystander [OF lc this] have "listed s6 k" by (rule bystander_listed)
  with makeCall_unfold [OF a, of options] lc show ?thesis by (cases x) simp_all
next
  case False
  with assms(1) show ?thesis
    by (auto simp: makeCall_def log_effect_def listed_keys split: option.splits)
qed

lemma onInvite_listed:
  assumes "listed s k"
  shows "listed (snd (onInvite e st ri s)) k"
  using assms
  by (cases ri)
     (auto simp: onInvite_def new_session_def handleIncomingCall_def log_effect_def Let_def
                 listed_keys keys_update)

lemma onInvite_lists:
  "listed (snd (onInvite e st (Some u) s)) (generateSessionId e)"
  by (simp add: onInvite_def new_session_def handleIncomingCall_def log_effect_def Let_def
                listed_keys keys_update)

subsection \<open>Ownership is an invariant\<close>

lemma owned_frame [simp]:
  "owned (s\<lparr>trace := t\<rparr>) = owned s"
  "owned (s\<lparr>streams := st\<rparr>) = owned s"
  "owned (s\<lparr>next_stream := n\<rparr>) = owned s"
  "owned (s\<lparr>next_session := m\<rparr>) = owned s"
  "owned (s\<lparr>userAgent := ua\<rparr>) = owned s"
  "owned (s\<lparr>registerer := rg\<rparr>) = owned s"
  "owned (s\<lparr>config := c\<rparr>) = owned s"
  by (simp_all add: owned_def owns_def)

lemma owned_delete: "owned s \<Longrightarrow> owned (s\<lparr>activeSessions := AList.delete k (activeSessions s)\<rparr>)"
  by (auto simp: owned_def owns_def AList.delete_eq intro: distinct_map_filter)

lemma owned_sessions_upd:
  "owned s \<Longrightarrow> set (stateChange obj) \<inter> range IncomingListener \<subseteq> set (stateChange (sessions s r)) \<Longrightarrow>
   owned (s\<lparr>sessions := (sessions s)(r := obj)\<rparr>)"
  by (auto simp: owned_def owns_def)

lemma owned_notifyStateChange [simp]: "owned (notifyStateChange s r) = owned s"
  by (simp add: owned_def owns_def)

lemma owned_cleanupSession: "owned s \<Longrightarrow> owned (cleanupSession s r)"
proof -
  assume o: "owned s"
  have shape: "\<And>t. owned t \<Longrightarrow>
      owned (case sessionDescriptionHandler (sessions t r) of
               None \<Rightarrow> t
             | Some h \<Rightarrow> (case localMediaStream h of None \<Rightarrow> t | Some m \<Rightarrow> stopTracks m t))"
    by (simp add: stopTracks_def split: option.splits)
  show ?thesis
    unfolding cleanupSession_def Let_def getSessionId_def
    by (rule shape) (auto split: option.splits intro: owned_delete [OF o] simp: o)
qed

lemma owned_run_listener: "owned s \<Longrightarrow> run_listener r ns l s = (x, s') \<Longrightarrow> owned s'"
  by (cases l) (auto split: if_splits option.splits intro: owned_delete owned_cleanupSession)

lemma owned_emit: "owned s \<Longrightarrow> emit ls r ns s = (x, s') \<Longrightarrow> owned s'"
proof (induction ls arbitrary: s)
  case Nil
  then show ?case by simp
next
  case (Cons l ls)
  obtain y s1 where h: "run_listener r ns l s = (y, s1)" by (cases "run_listener r ns l s")
  from owned_run_listener [OF Cons.prems(1) h] have o1: "owned s1" .
  show ?case
  proof (cases y)
    case None
    with Cons.prems(2) h have "emit ls r ns s1 = (x, s')" by simp
    from Cons.IH [OF o1 this] show ?thesis .
  next
    case (Some err)
    with Cons.prems(2) h o1 show ?thesis by simp
  qed
qed

lemma owned_stateTransition: "owned s \<Longrightarrow> stateTransition r ns s = (x, s') \<Longrightarrow> owned s'"
proof -
  assume o: "owned s" and t: "stateTransition r ns s = (x, s')"
  have "owned (set_state r ns s)"
    unfolding set_state_def by (rule owned_sessions_upd [OF o]) auto
  moreover from t have "emit (stateChange (sessions s r)) r ns (set_state r ns s) = (x, s')"
    by (simp add: stateTransition_def set_state_def Let_def)
  ultimately show ?thesis by (rule owned_emit)
qed

lemma owned_transitions: "owned s \<Longrightarrow> transitions r nss s = (x, s') \<Longrightarrow> owned s'"
proof (induction nss arbitrary: s)
  case Nil
  then show ?case by simp
next
  case (Cons ns nss)
  obtain y s1 where h: "stateTransition r ns s = (y, s1)" by (cases "stateTransition r ns s")
  from owned_stateTransition [OF Cons.prems(1) h] have o1: "owned s1" .
  show ?case
  proof (cases y)
    case None
    with Cons.prems(2) h have "transitions r nss s1 = (x, s')" by simp
    from Cons.IH [OF o1 this] show ?thesis .
  next
    case (Some err)
    with Cons.prems(2) h o1 show ?thesis by simp
  qed
qed

lemma owned_library_call: "owned s \<Longrightarrow> library_call oc r s = (x, s') \<Longrightarrow> owned s'"
proof -
  assume o: "owned s" and lc: "library_call oc r s = (x, s')"
  let ?s0 = "install_handler r (handler oc) s"
  obtain y s1 where tr: "transitions r (fires oc) ?s0 = (y, s1)"
    by (cases "transitions r (fires oc) ?s0")
  have "owned ?s0"
  proof (cases "handler oc")
    case None
    with o show ?thesis by (simp add: install_handler_def)
  next
    case (Some h)
    have "owned (s\<lparr>sessions := (sessions s)(r := (sessions s r)\<lparr>sessionDescriptionHandler := Some h\<rparr>)\<rparr>)"
      by (rule owned_sessions_upd [OF o]) auto
    with Some show ?thesis by (simp add: install_handler_def)
  qed
  from owned_transitions [OF this tr] have "owned s1" .
  with lc tr show ?thesis by (cases y) (auto simp: library_call_def)
qed

lemma owned_newSipService: "owned newSipService"
  by (simp add: owned_def owns_def newSipService_def)

lemma owned_initialize: "owned s \<Longrightarrow> owned (snd (initialize ok cfg s))"
  by (simp add: initialize_def)

text \<open>Binding a new identifier to a newly created session keeps ownership.\<close>

lemma owned_store:
  assumes "owned s" and "\<forall>r0. IncomingListener k \<notin> set (stateChange (sessions s r0))"
    and "next_session s \<notin> snd ` set (activeSessions s)"
    and "set (stateChange obj) \<subseteq> {IncomingListener k, SessionListener m}"
  shows "owned (s\<lparr>activeSessions := AList.update k (next_session s) (activeSessions s),
                  sessions := (sessions s)(next_session s := obj)\<rparr>)"
    (is "owned ?s'")
proof -
  from assms(1) have d: "distinct (map fst (activeSessions s))"
    and o: "\<And>r0. owns s r0" by (simp_all add: owned_def)
  have d': "distinct (map fst (activeSessions ?s'))" using d by (simp add: AList.distinct_update)
  have "owns ?s' r0" for r0
    unfolding owns_def
  proof (intro ballI impI)
    fix l p
    assume l: "l \<in> set (stateChange (sessions ?s' r0))" and p: "p \<in> set (activeSessions ?s')"
      and eq: "l = IncomingListener (fst p)"
    from p have pc: "p = (k, next_session s) \<or> p \<in> set (activeSessions s)"
      by (auto dest: mem_update_cases)
    show "snd p = r0"
    proof (cases "r0 = next_session s")
      case True
      with l assms(4) eq have "fst p = k" by auto
      then have "(k, snd p) \<in> set (activeSessions ?s')" using p by (metis prod.collapse)
      moreover have "(k, next_session s) \<in> set (activeSessions ?s')" by (simp add: mem_update)
      ultimately have "snd p = next_session s" using d' by (rule distinct_keys_unique [rotated])
      with True show ?thesis by simp
    next
      case False
      with l have l0: "l \<in> set (stateChange (sessions s r0))" by simp
      from pc show ?thesis
      proof
        assume "p = (k, next_session s)"
        with eq l0 assms(2) show ?thesis by auto
      next
        assume "p \<in> set (activeSessions s)"
        with o [of r0] l0 eq show ?thesis by (auto simp: owns_def)
      qed
    qed
  qed
  with d' show ?thesis by (simp add: owned_def)
qed

lemma owned_inviting:
  assumes "owned s" and "fresh_id e s" and "wf_state s"
  shows "owned (inviting e target ts options s)"
proof -
  let ?obj = "\<lparr> cls = Inviter, state = Initial, remoteIdentity = Some target, startTime = None,
       sessionDescriptionHandler = None, stateChange = [SessionListener (Some (next_stream s))] \<rparr>"
  from assms(2) have f: "\<forall>r0. IncomingListener (generateSessionId e) \<notin> set (stateChange (sessions s r0))"
    by (simp add: fresh_id_def)
  from assms(3) have n: "next_session s \<notin> snd ` set (activeSessions s)" by (auto simp: wf_state_def)
  from owned_store [OF assms(1) f n, of ?obj "Some (next_stream s)"]
  have "owned
          (s\<lparr>activeSessions := AList.update (generateSessionId e) (next_session s) (activeSessions s),
             sessions := (sessions s)(next_session s := ?obj)\<rparr>)" by simp
  then show ?thesis
    by (simp add: inviting_def new_stream_def new_session_def setupSessionHandlers_def
                  log_effect_def Let_def owned_def owns_def)
qed

lemma owned_makeCall:
  assumes "owned s" and "fresh_id e s" and "wf_state s"
  shows "owned (snd (makeCall e targetUri options s))"
proof (cases "\<exists>ua cfg target ts. userAgent s = Some ua \<and> config s = Some cfg \<and>
      makeURI e (''sip:'' @ targetUri @ ''@'' @ domain cfg) = Some target \<and> getUserMedia e = Some ts")
  case True
  then obtain ua cfg target ts where a: "userAgent s = Some ua" "config s = Some cfg"
    "makeURI e (''sip:'' @ targetUri @ ''@'' @ domain cfg) = Some target" "getUserMedia e = Some ts"
    by blast
  obtain x s6 where
    lc: "library_call (invite e) (next_session s) (inviting e target ts options s) = (x, s6)"
    by (cases "library_call (invite e) (next_session s) (inviting e target ts options s)")
  from owned_library_call [OF owned_inviting [OF assms] lc] have "owned s6" .
  with makeCall_unfold [OF a, of options] lc show ?thesis by (cases x) simp_all
next
  case False
  with assms(1) show ?thesis
    by (auto simp: makeCall_def log_effect_def split: option.splits)
qed

lemma owned_onInvite:
  assumes "owned s" and "fresh_id e s" and "wf_state s"
  shows "owned (snd (onInvite e st ri s))"
proof (cases ri)
  case None
  have "owned (s\<lparr>sessions := (sessions s)(next_session s :=
          \<lparr> cls = Invitation, state = st, remoteIdentity = None, startTime = None,
            sessionDescriptionHandler = None, stateChange = [] \<rparr>)\<rparr>)"
    by (rule owned_sessions_upd [OF assms(1)]) simp
  with None show ?thesis by (simp add: onInvite_def new_session_def owned_def owns_def)
next
  case (Some u)
  let ?obj = "\<lparr> cls = Invitation, state = st, remoteIdentity = ri, startTime = None,
       sessionDescriptionHandler = None, stateChange = [IncomingListener (generateSessionId e)] \<rparr>"
  from assms(2) have f: "\<forall>r0. IncomingListener (generateSessionId e) \<notin> set (stateChange (sessions s r0))"
    by (simp add: fresh_id_def)
  from assms(3) have n: "next_session s \<notin> snd ` set (activeSessions s)" by (auto simp: wf_state_def)
  from owned_store [OF assms(1) f n, of ?obj None]
  have "owned
          (s\<lparr>activeSessions := AList.update (generateSessionId e) (next_session s) (activeSessions s),
             sessions := (sessions s)(next_session s := ?obj)\<rparr>)" by simp
  with Some show ?thesis
    by (simp add: onInvite_def new_session_def handleIncomingCall_def
                  log_effect_def Let_def owned_def owns_def)
qed

lemma owned_setupSessionHandlers: "owned s \<Longrightarrow> owned (setupSessionHandlers r localStream s)"
  unfolding setupSessionHandlers_def
  by (rule owned_sessions_upd) auto

lemma owned_answerCall:
  assumes "owned s"
  shows "owned (snd (answerCall e sessionId options s))"
proof (cases "\<exists>r ts. map_of (activeSessions s) sessionId = Some r \<and>
    cls (sessions s r) = Invitation \<and> getUserMedia e = Some ts")
  case True
  then obtain r ts where a: "map_of (activeSessions s) sessionId = Some r"
    "cls (sessions s r) = Invitation" "getUserMedia e = Some ts" by blast
  let ?s3 = "log_effect (Accept r)
     (setupSessionHandlers r (Some (next_stream s))
        (snd (new_stream ts (log_effect (GetUserMedia (audio_opt options) (video_opt options)) s))))"
  have i3: "owned ?s3"
    using owned_setupSessionHandlers [of
            "snd (new_stream ts (log_effect (GetUserMedia (audio_opt options) (video_opt options)) s))"
            r "Some (next_stream s)"] assms
    by (simp add: log_effect_def new_stream_def)
  obtain x s4 where lc: "library_call (accept e) r ?s3 = (x, s4)"
    by (cases "library_call (accept e) r ?s3")
  from owned_library_call [OF i3 lc] have "owned s4" .
  with a lc show ?thesis
    by (cases x)
       (simp_all add: answerCall_def new_stream_def log_effect_def Let_def updateCallSession_def)
next
  case False
  with assms show ?thesis
    by (auto simp: answerCall_def log_effect_def split: option.splits)
qed

lemma owned_rejectCall:
  assumes "owned s"
  shows "owned (snd (rejectCall e sessionId s))"
proof (cases "\<exists>r. map_of (activeSessions s) sessionId = Some r \<and> cls (sessions s r) = Invitation")
  case True
  then obtain r where a: "map_of (activeSessions s) sessionId = Some r"
    "cls (sessions s r) = Invitation" by blast
  obtain x s1 where lc: "library_call (reject e) r (log_effect (Reject r) s) = (x, s1)"
    by (cases "library_call (reject e) r (log_effect (Reject r) s)")
  from assms have "owned (log_effect (Reject r) s)" by (simp add: log_effect_def)
  from owned_library_call [OF this lc] have "owned s1" .
  with a lc show ?thesis
    by (cases x) (simp_all add: rejectCall_def owned_delete)
next
  case False
  with assms show ?thesis
    by (auto simp: rejectCall_def split: option.splits)
qed

lemma owned_hangup_signal:
  "owned s \<Longrightarrow> hangup_signal e r s = (x, s') \<Longrightarrow> owned s'"
proof -
  assume i: "owned s" and h: "hangup_signal e r s = (x, s')"
  have l: "\<And>y. owned (log_effect y s)" using i by (simp add: log_effect_def)
  from h i show ?thesis
    by (cases "state (sessions s r)")
       (auto simp: hangup_signal_def cancel_session_def split: if_splits
             intro: owned_library_call [OF l])
qed

lemma owned_hangupCall:
  assumes "owned s"
  shows "owned (snd (hangupCall e sessionId s))"
proof (cases "map_of (activeSessions s) sessionId")
  case None
  with assms show ?thesis by (simp add: hangupCall_def)
next
  case (Some r)
  obtain x s1 where h: "hangup_signal e r s = (x, s1)" by (cases "hangup_signal e r s")
  from owned_hangup_signal [OF assms h] have "owned s1" .
  with Some h show ?thesis
    by (cases x) (simp_all add: hangupCall_def owned_delete)
qed

lemma owned_toggles:
  "owned s \<Longrightarrow> owned (snd (toggleHold e sessionId s))"
  "owned s \<Longrightarrow> owned (snd (toggleMute e sessionId s))"
  "owned s \<Longrightarrow> owned (snd (sendDTMF e sessionId tone s))"
  by (auto simp: toggleHold_def toggleMute_def sendDTMF_def log_effect_def Let_def
           split: option.splits)

lemma owned_delegates:
  "owned s \<Longrightarrow> owned (onAccept sessionId r s)"
  "owned s \<Longrightarrow> owned (onReject sessionId s)"
  by (simp_all add: onAccept_def onReject_def updateCallSession_def log_effect_def owned_delete)

lemma distinct_values_unique:
  "distinct (map snd al) \<Longrightarrow> (a, v) \<in> set al \<Longrightarrow> (b, v) \<in> set al \<Longrightarrow> a = b"
  by (induction al) (auto simp: image_iff)

text \<open>In an owned, well-formed store every other listed identifier is a bystander.\<close>

lemma owned_bystander:
  assumes "owned s" and "wf_store (activeSessions s)"
    and "map_of (activeSessions s) sessionId = Some r0" and "listed s k" and "k \<noteq> sessionId"
  shows "bystander s k r0"
proof -
  from assms(4) obtain r where mem: "(k, r) \<in> set (activeSessions s)" by (auto simp: listed_keys)
  from assms(3) have mem0: "(sessionId, r0) \<in> set (activeSessions s)" by (rule map_of_SomeD)
  from assms(2) have dv: "distinct (map snd (activeSessions s))" by (simp add: wf_store_def)
  have "r \<noteq> r0"
  proof
    assume "r = r0"
    with mem mem0 dv have "k = sessionId" by (auto dest: distinct_values_unique)
    with assms(5) show False by simp
  qed
  with mem assms(1) show ?thesis by (force simp: bystander_def owned_def)
qed


subsection \<open>Streams that no handler holds\<close>

lemma apart_frame [simp]:
  "apart (s\<lparr>trace := t\<rparr>) r m = apart s r m"
  "apart (s\<lparr>streams := st\<rparr>) r m = apart s r m"
  "apart (s\<lparr>activeSessions := al\<rparr>) r m = apart s r m"
  by (simp_all add: apart_def)

lemma streams_notifyStateChange [simp]: "streams (notifyStateChange s r) = streams s"
  by (simp add: notifyStateChange_def updateCallSession_def log_effect_def split: option.splits)

lemma streams_cleanupSession:
  assumes "apart s r m"
  shows "streams (cleanupSession s r) m = streams s m"
proof -
  have shape: "\<And>t. apart t r m \<Longrightarrow>
      streams (case sessionDescriptionHandler (sessions t r) of
                 None \<Rightarrow> t
               | Some h \<Rightarrow> (case localMediaStream h of None \<Rightarrow> t | Some m' \<Rightarrow> stopTracks m' t)) m
        = streams t m"
    by (auto simp: apart_def stopTracks_def split: option.splits)
  show ?thesis
    unfolding cleanupSession_def Let_def
    by (subst shape) (auto split: option.splits simp: assms)
qed

lemma streams_run_listener:
  "run_listener r ns l s = (x, s') \<Longrightarrow> apart s r m \<Longrightarrow> streams s' m = streams s m"
  by (cases l) (auto split: if_splits option.splits simp: streams_cleanupSession)

lemma apart_sessions: "sessions s' = sessions s \<Longrightarrow> apart s' r m = apart s r m"
  by (simp add: apart_def)

lemma streams_emit:
  "emit ls r ns s = (x, s') \<Longrightarrow> apart s r m \<Longrightarrow> streams s' m = streams s m \<and> apart s' r m"
proof (induction ls arbitrary: s)
  case Nil
  then show ?case by simp
next
  case (Cons l ls)
  obtain y s1 where h: "run_listener r ns l s = (y, s1)" by (cases "run_listener r ns l s")
  from streams_run_listener [OF h Cons.prems(2)] have st: "streams s1 m = streams s m" .
  from apart_sessions [OF sessions_run_listener [OF h]] Cons.prems(2) have a1: "apart s1 r m" by simp
  show ?case
  proof (cases y)
    case None
    with Cons.prems(1) h have "emit ls r ns s1 = (x, s')" by simp
    from Cons.IH [OF this a1] st show ?thesis by simp
  next
    case (Some err)
    with Cons.prems(1) h st a1 show ?thesis by simp
  qed
qed

lemma streams_stateTransition:
  assumes "stateTransition r ns s = (x, s')" and "apart s r m"
  shows "streams s' m = streams s m \<and> apart s' r m"
proof -
  have e: "emit (stateChange (sessions s r)) r ns (set_state r ns s) = (x, s')"
    using assms(1) by (simp add: stateTransition_def set_state_def Let_def)
  from assms(2) have a0: "apart (set_state r ns s) r m" by (simp add: apart_def set_state_def)
  from streams_emit [OF e a0] show ?thesis by (simp add: set_state_def)
qed

lemma streams_transitions:
  "transitions r nss s = (x, s') \<Longrightarrow> apart s r m \<Longrightarrow> streams s' m = streams s m \<and> apart s' r m"
proof (induction nss arbitrary: s)
  case Nil
  then show ?case by simp
next
  case (Cons ns nss)
  obtain y s1 where h: "stateTransition r ns s = (y, s1)" by (cases "stateTransition r ns s")
  from streams_stateTransition [OF h Cons.prems(2)]
  have st: "streams s1 m = streams s m" and a1: "apart s1 r m" by simp_all
  show ?case
  proof (cases y)
    case None
    with Cons.prems(1) h have "transitions r nss s1 = (x, s')" by simp
    from Cons.IH [OF this a1] st show ?thesis by simp
  next
    case (Some err)
    with Cons.prems(1) h st a1 show ?thesis by simp
  qed
qed

text \<open>
  A library call that installs a handler not holding the stream \<open>m\<close> leaves \<open>m\<close> as it is,
  whatever it announces.
\<close>

lemma streams_library_call:
  assumes "library_call oc r s = (x, s')"
    and "case handler oc of None \<Rightarrow> apart s r m | Some h \<Rightarrow> localMediaStream h \<noteq> Some m"
  shows "streams s' m = streams s m"
proof -
  let ?s0 = "install_handler r (handler oc) s"
  obtain y s1 where tr: "transitions r (fires oc) ?s0 = (y, s1)"
    by (cases "transitions r (fires oc) ?s0")
  from assms(2) have a0: "apart ?s0 r m"
    by (cases "handler oc") (simp_all add: install_handler_def apart_def)
  from streams_transitions [OF tr a0] have "streams s1 m = streams ?s0 m" by simp
  moreover have "streams ?s0 = streams s" by (simp add: install_handler_def split: option.splits)
  ultimately show ?thesis using assms(1) tr by (cases y) (auto simp: library_call_def)
qed

lemma apart_inviting: "apart (inviting e target ts options s) (next_session s) m"
  by (simp add: apart_def inviting_def new_stream_def new_session_def setupSessionHandlers_def
                log_effect_def Let_def)

subsection \<open>Operations that leave the store alone\<close>

lemma onReject_listed: "listed s k \<Longrightarrow> k \<noteq> sessionId \<Longrightarrow> listed (onReject sessionId s) k"
  by (auto simp: listed_keys onReject_def keys_delete)

lemma live_listing: "live s \<Longrightarrow> Terminated \<notin> set (map state_cs (getActiveSessions s))"
  by (auto simp: getActiveSessions_states live_def)

lemma hangupCall_quiet:
  assumes "isl (fst (hangupCall e sessionId s))"
    and "Terminated \<notin> set (fires (cancel e))" and "Terminated \<notin> set (fires (bye e))"
  shows "activeSessions (snd (hangupCall e sessionId s)) = activeSessions s"
proof (cases "map_of (activeSessions s) sessionId")
  case None
  then show ?thesis by (simp add: hangupCall_def)
next
  case (Some r)
  obtain x s1 where h: "hangup_signal e r s = (x, s1)" by (cases "hangup_signal e r s")
  have l: "\<And>y. activeSessions (log_effect y s) = activeSessions s" by (simp add: log_effect_def)
  from h assms(2,3) have "activeSessions s1 = activeSessions s"
    by (cases "state (sessions s r)")
       (auto simp: hangup_signal_def cancel_session_def l split: if_splits
             dest!: library_call_quiet [rotated])
  with Some h assms(1) show ?thesis by (cases x) (simp_all add: hangupCall_def)
qed

lemma rejectCall_quiet:
  assumes "isl (fst (rejectCall e sessionId s))" and "Terminated \<notin> set (fires (reject e))"
  shows "activeSessions (snd (rejectCall e sessionId s)) = activeSessions s"
proof (cases "\<exists>r. map_of (activeSessions s) sessionId = Some r \<and> cls (sessions s r) = Invitation")
  case True
  then obtain r where a: "map_of (activeSessions s) sessionId = Some r"
    "cls (sessions s r) = Invitation" by blast
  obtain x s1 where lc: "library_call (reject e) r (log_effect (Reject r) s) = (x, s1)"
    by (cases "library_call (reject e) r (log_effect (Reject r) s)")
  from library_call_quiet [OF assms(2) lc] have "activeSessions s1 = activeSessions s"
    by (simp add: log_effect_def)
  with a lc assms(1) show ?thesis by (cases x) (simp_all add: rejectCall_def)
next
  case False
  then show ?thesis by (auto simp: rejectCall_def split: option.splits)
qed

lemma answerCall_quiet:
  assumes "Terminated \<notin> set (fires (accept e))"
  shows "activeSessions (snd (answerCall e sessionId options s)) = activeSessions s"
proof (cases "\<exists>r ts. map_of (activeSessions s) sessionId = Some r \<and>
    cls (sessions s r) = Invitation \<and> getUserMedia e = Some ts")
  case True
  then obtain r ts where a: "map_of (activeSessions s) sessionId = Some r"
    "cls (sessions s r) = Invitation" "getUserMedia e = Some ts" by blast
  let ?s3 = "log_effect (Accept r)
     (setupSessionHandlers r (Some (next_stream s))
        (snd (new_stream ts (log_effect (GetUserMedia (audio_opt options) (video_opt options)) s))))"
  obtain x s4 where lc: "library_call (accept e) r ?s3 = (x, s4)"
    by (cases "library_call (accept e) r ?s3")
  from library_call_quiet [OF assms lc] have "activeSessions s4 = activeSessions s"
    by (simp add: log_effect_def setupSessionHandlers_def new_stream_def)
  with a lc show ?thesis
    by (cases x)
       (simp_all add: answerCall_def new_stream_def log_effect_def Let_def updateCallSession_def)
next
  case False
  then show ?thesis
    by (auto simp: answerCall_def log_effect_def split: option.splits)
qed

lemma toggles_store:
  "activeSessions (snd (toggleHold e sessionId s)) = activeSessions s"
  "activeSessions (snd (toggleMute e sessionId s)) = activeSessions s"
  "activeSessions (snd (sendDTMF e sessionId tone s)) = activeSessions s"
  by (auto simp: toggleHold_def toggleMute_def sendDTMF_def log_effect_def Let_def
           split: option.splits)

lemma unknown_store:
  assumes "map_of (activeSessions s) sessionId = None"
  shows "hangupCall e sessionId s = (Inl (Error ''Session not found''), s)"
    and "fst (rejectCall e sessionId s) = Inl (Error ''Invalid session ID or session not found'')"
    and "snd (rejectCall e sessionId s) = s"
    and "snd (answerCall e sessionId options s) = s"
  using assms by (simp_all add: hangupCall_def rejectCall_def answerCall_def)

subsection \<open>The state an accepted invitation ends in\<close>

lemma sessions_emit: "emit ls r ns s = (x, s') \<Longrightarrow> sessions s' = sessions s"
proof (induction ls arbitrary: s)
  case Nil
  then show ?case by simp
next
  case (Cons l ls)
  obtain y s1 where h: "run_listener r ns l s = (y, s1)" by (cases "run_listener r ns l s")
  from sessions_run_listener [OF h] have s1: "sessions s1 = sessions s" .
  show ?case
  proof (cases y)
    case None
    with Cons.prems h have "emit ls r ns s1 = (x, s')" by simp
    from Cons.IH [OF this] s1 show ?thesis by simp
  next
    case (Some err)
    with Cons.prems h s1 show ?thesis by simp
  qed
qed

lemma state_stateTransition: "state (sessions (snd (stateTransition r ns s)) r) = ns"
proof -
  obtain x s' where e: "emit (stateChange (sessions s r)) r ns (set_state r ns s) = (x, s')"
    by (cases "emit (stateChange (sessions s r)) r ns (set_state r ns s)")
  from sessions_emit [OF e] e show ?thesis
    by (simp add: stateTransition_def Let_def set_state_def)
qed

lemma stateTransition_Establishing: "fst (stateTransition r Establishing s) = None"
proof -
  obtain x s' where e: "emit (stateChange (sessions s r)) r Establishing (set_state r Establishing s) = (x, s')"
    by (cases "emit (stateChange (sessions s r)) r Establishing (set_state r Establishing s)")
  from emit_plain [OF _ _ e] e show ?thesis
    by (simp add: stateTransition_def Let_def set_state_def)
qed

lemma library_call_establishes:
  assumes "fires oc = [Establishing, Established]"
  shows "state (sessions (snd (library_call oc r s)) r) = Established"
proof -
  let ?s0 = "install_handler r (handler oc) s"
  obtain s1 where t1: "stateTransition r Establishing ?s0 = (None, s1)"
    using stateTransition_Establishing [of r ?s0] by (cases "stateTransition r Establishing ?s0") simp
  obtain y s2 where t2: "stateTransition r Established s1 = (y, s2)"
    by (cases "stateTransition r Established s1")
  from state_stateTransition [of r Established s1] t2
  have "state (sessions s2 r) = Established" by simp
  with assms t1 t2 show ?thesis
    by (cases y) (simp_all add: library_call_def)
qed

lemma answerCall_establishes:
  assumes "map_of (activeSessions s) sessionId = Some r" and "cls (sessions s r) = Invitation"
    and "getUserMedia e = Some ts" and "fires (accept e) = [Establishing, Established]"
  shows "state (sessions (snd (answerCall e sessionId options s)) r) = Established"
proof -
  let ?s3 = "log_effect (Accept r)
     (setupSessionHandlers r (Some (next_stream s))
        (snd (new_stream ts (log_effect (GetUserMedia (audio_opt options) (video_opt options)) s))))"
  obtain x s4 where lc: "library_call (accept e) r ?s3 = (x, s4)"
    by (cases "library_call (accept e) r ?s3")
  from library_call_establishes [OF assms(4), of r ?s3] lc
  have "state (sessions s4 r) = Established" by simp
  with assms(1-3) lc show ?thesis
    by (cases x)
       (simp_all add: answerCall_def new_stream_def log_effect_def Let_def updateCallSession_def)
qed

section \<open>Claims\<close>

text \<open>
  C1 as stated fails: makeCall never looks at the registration. On a service that is
  connected but not registered the call goes through: media is acquired, a session is
  stored and the offer is sent. The same happens on a service that has only been
  initialised.
\<close>

theorem makeCall_unregistered_counterexample:
  "\<not> isRegistered s_unregistered \<and>
   fst (makeCall env0 ''bob'' audio_only s_unregistered) = Inr sid0 \<and>
   activeSessions (snd (makeCall env0 ''bob'' audio_only s_unregistered)) = [(sid0, 0)] \<and>
   calls (snd (makeCall env0 ''bob'' audio_only s_unregistered)) =
     [GetUserMedia True False, Invite 0] \<and>
   \<not> isRegistered s_init \<and>
   fst (makeCall env0 ''bob'' audio_only s_init) = Inr sid0"
  by (simp add: model_defs)

text \<open>
  C1 as amended. The precondition of makeCall is that the service has been initialised
  (user agent and configuration present): otherwise it fails at once with
  \<^verbatim>\<open>Error('SIP service not initialized')\<close> and leaves the service as it was, so that no
  session is created, stored or offered. The registration state is not consulted: on an
  initialised service with a valid target and available media, media is acquired and the
  offer is sent, whatever the registerer's state.
\<close>

theorem makeCall_requires_initialized:
  "(userAgent s = None \<or> config s = None \<longrightarrow>
      makeCall e targetUri options s = (Inl (Error ''SIP service not initialized''), s)) \<and>
   (userAgent s = Some ua \<and> config s = Some cfg \<and>
    makeURI e (''sip:'' @ targetUri @ ''@'' @ domain cfg) = Some target \<and>
    getUserMedia e = Some ts \<longrightarrow>
      calls (snd (makeCall e targetUri options (s\<lparr>registerer := reg\<rparr>))) =
        calls s @ [GetUserMedia (audio_opt options) (video_opt options), Invite (next_session s)])"
proof (intro conjI impI)
  assume "userAgent s = None \<or> config s = None"
  then show "makeCall e targetUri options s = (Inl (Error ''SIP service not initialized''), s)"
    by (auto simp: makeCall_def split: option.splits)
next
  let ?s = "s\<lparr>registerer := reg\<rparr>"
  assume a: "userAgent s = Some ua \<and> config s = Some cfg \<and>
    makeURI e (''sip:'' @ targetUri @ ''@'' @ domain cfg) = Some target \<and>
    getUserMedia e = Some ts"
  then have "userAgent ?s = Some ua" and "config ?s = Some cfg"
    and "makeURI e (''sip:'' @ targetUri @ ''@'' @ domain cfg) = Some target"
    and "getUserMedia e = Some ts"
    by simp_all
  then have mk: "makeCall e targetUri options ?s =
           (case library_call (invite e) (next_session ?s) (inviting e target ts options ?s) of
              (Some err, s6) \<Rightarrow> (Inl err, s6)
            | (None, s6) \<Rightarrow> (Inr (generateSessionId e), s6))"
    by (rule makeCall_unfold)
  obtain x s6 where
    h: "library_call (invite e) (next_session ?s) (inviting e target ts options ?s) = (x, s6)"
    by (cases "library_call (invite e) (next_session ?s) (inviting e target ts options ?s)")
  from mk h have "snd (makeCall e targetUri options ?s) = s6"
    by (cases x) simp_all
  moreover have "calls ?s = calls s" by (simp add: calls_def)
  ultimately
  show "calls (snd (makeCall e targetUri options ?s)) =
        calls s @ [GetUserMedia (audio_opt options) (video_opt options), Invite (next_session s)]"
    using calls_library_call [OF h] by (simp add: calls_inviting)
qed

theorem makeCall_requires_initialized_witness:
  "userAgent newSipService = None \<and>
   userAgent s_init = Some Stopped \<and> config s_init = Some cfg0 \<and>
   getUserMedia env0 = Some [mic] \<and>
   makeCall env0 ''bob'' audio_only newSipService
     = (Inl (Error ''SIP service not initialized''), newSipService) \<and>
   calls (snd (makeCall env0 ''bob'' audio_only (s_init\<lparr>registerer := Some Unregistered\<rparr>)))
     = [GetUserMedia True False, Invite 0]"
  using makeCall_requires_initialized
          [of newSipService env0 "''bob''" audio_only Stopped cfg0 "''sip:bob@example.com''" "[mic]" None]
        makeCall_requires_initialized
          [of s_init env0 "''bob''" audio_only Stopped cfg0 "''sip:bob@example.com''" "[mic]" "Some Unregistered"]
  by (simp add: model_defs)

text \<open>
  C2 as stated fails. After the established call to bob has ended (Terminated announced,
  session removed by its listener), operations on its identifier fail with the errors
  they give for an identifier that was never issued, and not with one common error:
  hangupCall reports \<^verbatim>\<open>'Session not found'\<close>, toggleHold
  \<^verbatim>\<open>'No established session found'\<close>, answerCall
  \<^verbatim>\<open>'Invalid session ID or session not found'\<close>.
\<close>

theorem terminated_session_errors_counterexample:
  "state (sessions s_ended 0) = Terminated \<and>
   fst (hangupCall env0 sid0 s_ended) = Inl (Error ''Session not found'') \<and>
   fst (hangupCall env0 ''session_0_unknown'' s_ended) = Inl (Error ''Session not found'') \<and>
   fst (toggleHold env0 sid0 s_ended) = Inl (Error ''No established session found'') \<and>
   fst (answerCall env0 sid0 audio_only s_ended) = Inl (Error ''Invalid session ID or session not found'') \<and>
   fst (hangupCall env0 sid0 s_ended) \<noteq> fst (toggleHold env0 sid0 s_ended)"
  by (simp add: model_defs)

text \<open>
  C2 as amended. A session whose Terminated state change is announced is removed from the
  store by its listener, and from then on every operation on its identifier fails and
  leaves the service unchanged, with the error the operation gives for an unknown
  identifier: \<^verbatim>\<open>'Session not found'\<close> for hangupCall,
  \<^verbatim>\<open>'Invalid session ID or session not found'\<close> for answerCall and rejectCall,
  \<^verbatim>\<open>'No established session found'\<close> for toggleHold, toggleMute and sendDTMF. When
  hangupCall finds a session still stored in state Terminating or Terminated, it calls
  nothing on it, removes it and returns normally. The conditions on the store and on the
  listeners hold for every stored session in every state the service reaches
  (\<open>reachable_inv_stored\<close>).
\<close>

theorem terminated_is_absorbing:
  "(stateTransition r Terminated s = (x, s') \<and>
    wf_store (activeSessions s) \<and> (sessionId, r) \<in> set (activeSessions s) \<and>
    (\<exists>l \<in> set (stateChange (sessions s r)). removes sessionId l) \<longrightarrow>
      state (sessions s' r) = Terminated \<and>
      hangupCall e sessionId s' = (Inl (Error ''Session not found''), s') \<and>
      answerCall e sessionId options s' = (Inl (Error ''Invalid session ID or session not found''), s') \<and>
      rejectCall e sessionId s' = (Inl (Error ''Invalid session ID or session not found''), s') \<and>
      toggleHold e sessionId s' = (Inl (Error ''No established session found''), s') \<and>
      toggleMute e sessionId s' = (Inl (Error ''No established session found''), s') \<and>
      sendDTMF e sessionId tone s' = (Inl (Error ''No established session found''), s')) \<and>
   (map_of (activeSessions s) sessionId = Some r \<and>
    (state (sessions s r) = Terminating \<or> state (sessions s r) = Terminated) \<longrightarrow>
      hangupCall e sessionId s =
        (Inr (), s\<lparr>activeSessions := AList.delete sessionId (activeSessions s)\<rparr>))"
proof (intro conjI impI)
  assume a: "stateTransition r Terminated s = (x, s') \<and>
    wf_store (activeSessions s) \<and> (sessionId, r) \<in> set (activeSessions s) \<and>
    (\<exists>l \<in> set (stateChange (sessions s r)). removes sessionId l)"
  then have st: "stateTransition r Terminated s = (x, s')"
    and wf: "wf_store (activeSessions s)" and mem: "(sessionId, r) \<in> set (activeSessions s)"
    and ls: "\<exists>l \<in> set (stateChange (sessions s r)). removes sessionId l"
    by simp_all
  from stateTransition_Terminated [OF st wf mem ls]
  have gone: "map_of (activeSessions s') sessionId = None"
    and tm: "state (sessions s' r) = Terminated" by simp_all
  show "state (sessions s' r) = Terminated" by (rule tm)
  show "hangupCall e sessionId s' = (Inl (Error ''Session not found''), s')"
    using gone by (simp add: hangupCall_def)
  show "answerCall e sessionId options s' = (Inl (Error ''Invalid session ID or session not found''), s')"
    using gone by (simp add: answerCall_def)
  show "rejectCall e sessionId s' = (Inl (Error ''Invalid session ID or session not found''), s')"
    using gone by (simp add: rejectCall_def)
  show "toggleHold e sessionId s' = (Inl (Error ''No established session found''), s')"
    using gone by (simp add: toggleHold_def)
  show "toggleMute e sessionId s' = (Inl (Error ''No established session found''), s')"
    using gone by (simp add: toggleMute_def)
  show "sendDTMF e sessionId tone s' = (Inl (Error ''No established session found''), s')"
    using gone by (simp add: sendDTMF_def)
next
  assume "map_of (activeSessions s) sessionId = Some r \<and>
    (state (sessions s r) = Terminating \<or> state (sessions s r) = Terminated)"
  then show "hangupCall e sessionId s =
        (Inr (), s\<lparr>activeSessions := AList.delete sessionId (activeSessions s)\<rparr>)"
    by (auto simp: hangupCall_def hangup_signal_def)
qed

theorem terminated_is_absorbing_witness:
  "stateTransition 0 Terminated s_talking = (None, s_ended) \<and>
   wf_store (activeSessions s_talking) \<and> (sid0, 0) \<in> set (activeSessions s_talking) \<and>
   (\<exists>l \<in> set (stateChange (sessions s_talking 0)). removes sid0 l) \<and>
   state (sessions s_ended 0) = Terminated \<and>
   fst (hangupCall env0 sid0 s_ended) = Inl (Error ''Session not found'') \<and>
   fst (sendDTMF env0 sid0 ''5'' s_ended) = Inl (Error ''No established session found'') \<and>
   map_of (activeSessions s_cancel_failed) sid0 = Some 0 \<and>
   state (sessions s_cancel_failed 0) = Terminating \<and>
   fst (hangupCall env0 sid0 s_cancel_failed) = Inr () \<and>
   activeSessions (snd (hangupCall env0 sid0 s_cancel_failed)) = []"
  using terminated_is_absorbing
          [of 0 s_talking None s_ended sid0 env0 audio_only "''5''"]
        terminated_is_absorbing
          [of 0 s_cancel_failed None s_cancel_failed sid0 env0 audio_only "''5''"]
  by (simp add: model_defs)

text \<open>
  C3, evaluated on the code. A call that is cancelled while Establishing reaches
  Terminated with the tracks of the stream acquired by makeCall never stopped:
  cleanupSession stops only the stream it finds on the session's handler, and the acquired
  stream is held by the listener's closure alone. A call that was Established before it
  ended fares no better: the assignment that would have put the stream on the handler
  throws.
\<close>

theorem cancelled_call_media_never_released:
  "state (sessions s_ended 0) = Terminated \<and> map stops (streams s_ended 0) = [0] \<and>
   fst (makeCall env0 ''bob'' audio_only s_init) = Inr sid0 \<and>
   streams s_calling 0 = [mic] \<and>
   fst (hangupCall env0 sid0 s_calling) = Inr () \<and>
   state (sessions s_cancelled 0) = Terminated \<and>
   activeSessions s_cancelled = [] \<and>
   map stops (streams s_cancelled 0) = [0]"
  by (simp add: model_defs)

text \<open>
  C4. When makeCall gets as far as acquiring media and \<^verbatim>\<open>getUserMedia\<close> rejects, the call
  fails with that rejection; nothing has been stored, no session object has been created
  and the only call made on a collaborator is the failed acquisition, so no offer is sent.
\<close>

theorem makeCall_media_failure:
  assumes "userAgent s = Some ua" and "config s = Some cfg"
    and "makeURI e (''sip:'' @ targetUri @ ''@'' @ domain cfg) = Some target"
    and "getUserMedia e = None"
  shows "fst (makeCall e targetUri options s) = Inl MediaError \<and>
         activeSessions (snd (makeCall e targetUri options s)) = activeSessions s \<and>
         sessions (snd (makeCall e targetUri options s)) = sessions s \<and>
         calls (snd (makeCall e targetUri options s)) =
           calls s @ [GetUserMedia (audio_opt options) (video_opt options)]"
  using assms by (simp add: makeCall_def calls_log_effect) (simp add: log_effect_def)

theorem makeCall_media_failure_witness:
  "userAgent s_init = Some Stopped \<and> config s_init = Some cfg0 \<and>
   makeURI (env0\<lparr>getUserMedia := None\<rparr>) (''sip:'' @ ''bob'' @ ''@'' @ domain cfg0)
     = Some ''sip:bob@example.com'' \<and>
   getUserMedia (env0\<lparr>getUserMedia := None\<rparr>) = None \<and>
   fst (makeCall (env0\<lparr>getUserMedia := None\<rparr>) ''bob'' audio_only s_init) = Inl MediaError \<and>
   activeSessions (snd (makeCall (env0\<lparr>getUserMedia := None\<rparr>) ''bob'' audio_only s_init)) = [] \<and>
   calls (snd (makeCall (env0\<lparr>getUserMedia := None\<rparr>) ''bob'' audio_only s_init))
     = [GetUserMedia True False]"
  using makeCall_media_failure
          [of s_init Stopped cfg0 "env0\<lparr>getUserMedia := None\<rparr>" "''bob''"
              "''sip:bob@example.com''" audio_only]
  by (simp add: model_defs)

text \<open>
  C5 as stated fails. answerCall never looks at the session's state: the invitation
  from carol is in state Initial, not Establishing, and answering it acquires media and
  calls \<^verbatim>\<open>accept\<close>, which takes the session to Established. The acquired stream does not
  get attached: the assignment to the handler's \<^verbatim>\<open>localMediaStream\<close> throws, and
  answerCall with it. An unknown identifier and the identifier of an outgoing call get the
  same error.
\<close>

theorem answerCall_counterexample:
  "state (sessions s_ringing 0) = Initial \<and> cls (sessions s_ringing 0) = Invitation \<and>
   calls (snd (answerCall env0 sid0 audio_only s_ringing)) = [GetUserMedia True False, Accept 0] \<and>
   state (sessions (snd (answerCall env0 sid0 audio_only s_ringing)) 0) = Established \<and>
   fst (answerCall env0 sid0 audio_only s_ringing) = Inl TypeError \<and>
   sessionDescriptionHandler (sessions (snd (answerCall env0 sid0 audio_only s_ringing)) 0) =
     Some \<lparr> localMediaStream = None, remoteMediaStream = None \<rparr> \<and>
   cls (sessions s_calling 0) = Inviter \<and>
   fst (answerCall env0 sid0 audio_only s_calling) =
     Inl (Error ''Invalid session ID or session not found'') \<and>
   fst (answerCall env0 ''session_0_unknown'' audio_only s_calling) =
     Inl (Error ''Invalid session ID or session not found'')"
  by (simp add: model_defs)

text \<open>
  C5 as amended. answerCall fails with \<^verbatim>\<open>Error('Invalid session ID or session not found')\<close>
  when the identifier is unknown and also when the stored session is not an Invitation (an
  outgoing call), leaving the service unchanged; it does not check the session's state.
  For a stored Invitation, in whatever state, it acquires media: a rejection of
  \<^verbatim>\<open>getUserMedia\<close> is rethrown with the store and the sessions unchanged; otherwise it
  calls \<^verbatim>\<open>accept\<close> on the invitation. When \<^verbatim>\<open>accept\<close> announces Establishing and
  Established, the session is Established afterwards; when \<^verbatim>\<open>accept\<close> rejects, answerCall
  throws.
\<close>

theorem answerCall_contract:
  "(map_of (activeSessions s) sessionId = None \<or>
    (map_of (activeSessions s) sessionId = Some r \<and> cls (sessions s r) \<noteq> Invitation) \<longrightarrow>
      answerCall e sessionId options s =
        (Inl (Error ''Invalid session ID or session not found''), s)) \<and>
   (map_of (activeSessions s) sessionId = Some r \<and> cls (sessions s r) = Invitation \<and>
    getUserMedia e = None \<longrightarrow>
      fst (answerCall e sessionId options s) = Inl MediaError \<and>
      activeSessions (snd (answerCall e sessionId options s)) = activeSessions s \<and>
      sessions (snd (answerCall e sessionId options s)) = sessions s) \<and>
   (map_of (activeSessions s) sessionId = Some r \<and> cls (sessions s r) = Invitation \<and>
    getUserMedia e = Some ts \<longrightarrow>
      calls (snd (answerCall e sessionId options s)) =
        calls s @ [GetUserMedia (audio_opt options) (video_opt options), Accept r] \<and>
      (fires (accept e) = [Establishing, Established] \<longrightarrow>
         state (sessions (snd (answerCall e sessionId options s)) r) = Established) \<and>
      (rejects (accept e) \<longrightarrow> isl (fst (answerCall e sessionId options s))))"
proof (intro conjI impI)
  assume "map_of (activeSessions s) sessionId = None \<or>
    (map_of (activeSessions s) sessionId = Some r \<and> cls (sessions s r) \<noteq> Invitation)"
  then show "answerCall e sessionId options s =
        (Inl (Error ''Invalid session ID or session not found''), s)"
    by (auto simp: answerCall_def)
next
  assume a: "map_of (activeSessions s) sessionId = Some r \<and> cls (sessions s r) = Invitation \<and>
    getUserMedia e = None"
  then show "fst (answerCall e sessionId options s) = Inl MediaError"
    and "activeSessions (snd (answerCall e sessionId options s)) = activeSessions s"
    and "sessions (snd (answerCall e sessionId options s)) = sessions s"
    by (simp_all add: answerCall_def log_effect_def)
next
  assume a: "map_of (activeSessions s) sessionId = Some r \<and> cls (sessions s r) = Invitation \<and>
    getUserMedia e = Some ts"
  then show "calls (snd (answerCall e sessionId options s)) =
        calls s @ [GetUserMedia (audio_opt options) (video_opt options), Accept r]"
    by (simp add: calls_answerCall)
  {
    assume "fires (accept e) = [Establishing, Established]"
    with a show "state (sessions (snd (answerCall e sessionId options s)) r) = Established"
      by (simp add: answerCall_establishes)
  }
  assume rj: "rejects (accept e)"
  let ?s3 = "log_effect (Accept r)
     (setupSessionHandlers r (Some (next_stream s))
        (snd (new_stream ts (log_effect (GetUserMedia (audio_opt options) (video_opt options)) s))))"
  obtain x s4 where lc: "library_call (accept e) r ?s3 = (x, s4)"
    by (cases "library_call (accept e) r ?s3")
  from library_call_rejects [OF rj lc] obtain err where "x = Some err" by auto
  with a lc show "isl (fst (answerCall e sessionId options s))"
    by (simp add: answerCall_def new_stream_def log_effect_def Let_def)
qed

theorem answerCall_contract_witness:
  "map_of (activeSessions s_calling) ''session_0_unknown'' = None \<and>
   fst (answerCall env0 ''session_0_unknown'' audio_only s_calling) =
     Inl (Error ''Invalid session ID or session not found'') \<and>
   map_of (activeSessions s_calling) sid0 = Some 0 \<and> cls (sessions s_calling 0) \<noteq> Invitation \<and>
   fst (answerCall env0 sid0 audio_only s_calling) =
     Inl (Error ''Invalid session ID or session not found'') \<and>
   map_of (activeSessions s_ringing) sid0 = Some 0 \<and> cls (sessions s_ringing 0) = Invitation \<and>
   getUserMedia (env0\<lparr>getUserMedia := None\<rparr>) = None \<and>
   fst (answerCall (env0\<lparr>getUserMedia := None\<rparr>) sid0 audio_only s_ringing) = Inl MediaError \<and>
   getUserMedia env0 = Some [mic] \<and> fires (accept env0) = [Establishing, Established] \<and>
   calls (snd (answerCall env0 sid0 audio_only s_ringing)) = [GetUserMedia True False, Accept 0] \<and>
   state (sessions (snd (answerCall env0 sid0 audio_only s_ringing)) 0) = Established \<and>
   getUserMedia env_accept_rejects = Some [mic] \<and> rejects (accept env_accept_rejects) \<and>
   calls (snd (answerCall env_accept_rejects sid0 audio_only s_ringing)) =
     [GetUserMedia True False, Accept 0] \<and>
   isl (fst (answerCall env_accept_rejects sid0 audio_only s_ringing))"
  using answerCall_contract
          [where s = s_calling and sessionId = "''session_0_unknown''" and e = env0
             and options = audio_only]
        answerCall_contract
          [where s = s_calling and sessionId = sid0 and r = 0 and e = env0
             and options = audio_only]
        answerCall_contract
          [where s = s_ringing and sessionId = sid0 and r = 0
             and e = "env0\<lparr>getUserMedia := None\<rparr>" and options = audio_only]
        answerCall_contract
          [where s = s_ringing and sessionId = sid0 and r = 0 and e = env0
             and options = audio_only and ts = "[mic]"]
        answerCall_contract
          [where s = s_ringing and sessionId = sid0 and r = 0 and e = env_accept_rejects
             and options = audio_only and ts = "[mic]"]
  by (simp add: model_defs)

text \<open>
  C6 as stated fails. The caller hangs up the Establishing call to bob; \<^verbatim>\<open>cancel\<close> resolves
  with the session in state Terminating. The session has not reached Terminated, yet it
  is no longer listed.
\<close>

theorem getActiveSessions_counterexample:
  "map id_cs (getActiveSessions s_calling) = [sid0] \<and>
   fst (hangupCall env0 sid0 s_calling) = Inr () \<and>
   state (sessions (snd (hangupCall env0 sid0 s_calling)) 0) = Terminating \<and>
   getActiveSessions (snd (hangupCall env0 sid0 s_calling)) = []"
  by (simp add: model_defs)

text \<open>
  C6 as amended. getActiveSessions returns one entry per stored session, in the order of
  the store and with the session's current state, without filtering by state; in the
  states the service reaches no stored session is Terminated, so that none is listed as
  such.

  A session is listed from the moment it is stored, by the arrival of an incoming call
  (one that carries a remote identity) or by a makeCall that returns its identifier
  (provided the invite did not announce Terminated).

  It is no longer listed once it has been removed from the store: when hangupCall or
  rejectCall returns normally, whatever state the session is in by then, when the
  \<^verbatim>\<open>onReject\<close> delegate of its invite runs, or when its Terminated state change is announced
  (the conditions of that case hold for every stored session in every state the service
  reaches).

  Until then it stays listed. A state change other than Terminated leaves the store as it
  is, and so do answerCall, hangupCall and rejectCall when they throw, as long as the
  library call they make announces no Terminated; toggleHold, toggleMute, sendDTMF and the
  \<^verbatim>\<open>onAccept\<close> delegate never touch the store, and an operation given an unknown identifier
  changes nothing. What happens to one session leaves every other session listed: a
  state change of session \<open>r\<close>, Terminated included, and hangupCall, rejectCall and
  answerCall on the identifier of \<open>r\<close> keep every bystander of \<open>r\<close> listed (every other
  listed identifier is one, by lemma \<open>owned_bystander\<close>), and so do a makeCall and an
  incoming call that get an identifier of their own and the \<^verbatim>\<open>onReject\<close> delegate of
  another identifier.
\<close>

theorem getActiveSessions_lists_store:
  "map id_cs (getActiveSessions s) = map fst (activeSessions s) \<and>
   map state_cs (getActiveSessions s) = map (\<lambda>p. state (sessions s (snd p))) (activeSessions s) \<and>
   (reachable_inv s \<longrightarrow> Terminated \<notin> set (map state_cs (getActiveSessions s))) \<and>
   listed (snd (onInvite e st (Some u) s)) (generateSessionId e) \<and>
   (makeCall e targetUri options s = (Inr sessionId, s') \<and> Terminated \<notin> set (fires (invite e)) \<longrightarrow>
      listed s' sessionId) \<and>
   (hangupCall e sessionId s = (Inr (), s') \<longrightarrow> \<not> listed s' sessionId) \<and>
   (rejectCall e sessionId s = (Inr (), s') \<longrightarrow> \<not> listed s' sessionId) \<and>
   \<not> listed (onReject sessionId s) sessionId \<and>
   (stateTransition r Terminated s = (x, s') \<and>
    wf_store (activeSessions s) \<and> (sessionId, r) \<in> set (activeSessions s) \<and>
    (\<exists>l \<in> set (stateChange (sessions s r)). removes sessionId l) \<longrightarrow>
      \<not> listed s' sessionId) \<and>
   (ns \<noteq> Terminated \<longrightarrow>
      activeSessions (snd (stateTransition r ns s)) = activeSessions s) \<and>
   (Terminated \<notin> set (fires (accept e)) \<longrightarrow>
      activeSessions (snd (answerCall e sessionId options s)) = activeSessions s) \<and>
   (isl (fst (hangupCall e sessionId s)) \<and>
    Terminated \<notin> set (fires (cancel e)) \<and> Terminated \<notin> set (fires (bye e)) \<longrightarrow>
      activeSessions (snd (hangupCall e sessionId s)) = activeSessions s) \<and>
   (isl (fst (rejectCall e sessionId s)) \<and> Terminated \<notin> set (fires (reject e)) \<longrightarrow>
      activeSessions (snd (rejectCall e sessionId s)) = activeSessions s) \<and>
   activeSessions (snd (toggleHold e sessionId s)) = activeSessions s \<and>
   activeSessions (snd (toggleMute e sessionId s)) = activeSessions s \<and>
   activeSessions (snd (sendDTMF e sessionId tone s)) = activeSessions s \<and>
   activeSessions (onAccept sessionId r s) = activeSessions s \<and>
   (map_of (activeSessions s) sessionId = None \<longrightarrow>
      snd (hangupCall e sessionId s) = s \<and> snd (rejectCall e sessionId s) = s \<and>
      snd (answerCall e sessionId options s) = s) \<and>
   (bystander s k r \<longrightarrow> listed (snd (stateTransition r ns s)) k) \<and>
   (bystander s k r \<and> map_of (activeSessions s) sessionId = Some r \<longrightarrow>
      listed (snd (hangupCall e sessionId s)) k \<and>
      listed (snd (rejectCall e sessionId s)) k \<and>
      listed (snd (answerCall e sessionId options s)) k) \<and>
   (listed s k \<and> k \<noteq> generateSessionId e \<and> wf_state s \<and>
    distinct (map fst (activeSessions s)) \<longrightarrow>
      listed (snd (makeCall e targetUri options s)) k) \<and>
   (listed s k \<longrightarrow> listed (snd (onInvite e st ri s)) k) \<and>
   (listed s k \<and> k \<noteq> sessionId \<longrightarrow> listed (onReject sessionId s) k)"
proof (intro conjI impI)
  show "map id_cs (getActiveSessions s) = map fst (activeSessions s)"
    by (rule getActiveSessions_ids)
  show "map state_cs (getActiveSessions s) = map (\<lambda>p. state (sessions s (snd p))) (activeSessions s)"
    by (rule getActiveSessions_states)
  show "listed (snd (onInvite e st (Some u) s)) (generateSessionId e)"
    by (rule onInvite_lists)
  show "\<not> listed (onReject sessionId s) sessionId"
    by (simp add: listed_keys onReject_def keys_delete)
  show "activeSessions (snd (toggleHold e sessionId s)) = activeSessions s"
    by (rule toggles_store)
  show "activeSessions (snd (toggleMute e sessionId s)) = activeSessions s"
    by (rule toggles_store)
  show "activeSessions (snd (sendDTMF e sessionId tone s)) = activeSessions s"
    by (rule toggles_store)
  show "activeSessions (onAccept sessionId r s) = activeSessions s"
    by (simp add: onAccept_def updateCallSession_def log_effect_def)
next
  assume "reachable_inv s"
  then have "live s" by (simp add: reachable_inv_def)
  then show "Terminated \<notin> set (map state_cs (getActiveSessions s))" by (rule live_listing)
next
  assume a: "makeCall e targetUri options s = (Inr sessionId, s') \<and> Terminated \<notin> set (fires (invite e))"
  then have quiet: "Terminated \<notin> set (fires (invite e))" by simp
  from a obtain s5 r where lc: "library_call (invite e) r s5 = (None, s')"
    and st: "sessionId \<in> fst ` set (activeSessions s5)"
    by (auto simp: makeCall_def new_stream_def new_session_def setupSessionHandlers_def
                   log_effect_def Let_def keys_update
             split: option.splits prod.splits)
  from library_call_quiet [OF quiet lc] st
  show "listed s' sessionId" by (simp add: listed_keys)
next
  assume "hangupCall e sessionId s = (Inr (), s')"
  then show "\<not> listed s' sessionId"
    by (auto simp: hangupCall_def listed_keys mem_delete
             split: option.splits prod.splits)
next
  assume "rejectCall e sessionId s = (Inr (), s')"
  then show "\<not> listed s' sessionId"
    by (auto simp: rejectCall_def listed_keys mem_delete
             split: option.splits prod.splits if_splits)
next
  assume a: "stateTransition r Terminated s = (x, s') \<and>
    wf_store (activeSessions s) \<and> (sessionId, r) \<in> set (activeSessions s) \<and>
    (\<exists>l \<in> set (stateChange (sessions s r)). removes sessionId l)"
  then have st: "stateTransition r Terminated s = (x, s')"
    and wf: "wf_store (activeSessions s)" and mem: "(sessionId, r) \<in> set (activeSessions s)"
    and ls: "\<exists>l \<in> set (stateChange (sessions s r)). removes sessionId l"
    by simp_all
  from stateTransition_Terminated [OF st wf mem ls]
  show "\<not> listed s' sessionId"
    by (simp add: listed_keys map_of_eq_None_iff)
next
  assume ns: "ns \<noteq> Terminated"
  obtain y s1 where h: "stateTransition r ns s = (y, s1)" by (cases "stateTransition r ns s")
  from stateTransition_quiet [OF ns h] h
  show "activeSessions (snd (stateTransition r ns s)) = activeSessions s" by simp
next
  assume "Terminated \<notin> set (fires (accept e))"
  then show "activeSessions (snd (answerCall e sessionId options s)) = activeSessions s"
    by (rule answerCall_quiet)
next
  assume "isl (fst (hangupCall e sessionId s)) \<and>
    Terminated \<notin> set (fires (cancel e)) \<and> Terminated \<notin> set (fires (bye e))"
  then show "activeSessions (snd (hangupCall e sessionId s)) = activeSessions s"
    by (simp add: hangupCall_quiet)
next
  assume "isl (fst (rejectCall e sessionId s)) \<and> Terminated \<notin> set (fires (reject e))"
  then show "activeSessions (snd (rejectCall e sessionId s)) = activeSessions s"
    by (simp add: rejectCall_quiet)
next
  assume u: "map_of (activeSessions s) sessionId = None"
  from unknown_store [OF u] show "snd (hangupCall e sessionId s) = s"
    and "snd (rejectCall e sessionId s) = s"
    and "snd (answerCall e sessionId options s) = s" by simp_all
next
  assume b: "bystander s k r"
  obtain y s1 where h: "stateTransition r ns s = (y, s1)" by (cases "stateTransition r ns s")
  from stateTransition_bystander [OF h b] have "listed s1 k" by (rule bystander_listed)
  with h show "listed (snd (stateTransition r ns s)) k" by simp
next
  assume a: "bystander s k r \<and> map_of (activeSessions s) sessionId = Some r"
  then have b: "bystander s k r" and m: "map_of (activeSessions s) sessionId = Some r"
    by simp_all
  from hangupCall_bystander [OF b m] show "listed (snd (hangupCall e sessionId s)) k"
    by (rule bystander_listed)
  from rejectCall_bystander [OF b m] show "listed (snd (rejectCall e sessionId s)) k"
    by (rule bystander_listed)
  from answerCall_bystander [OF b m] show "listed (snd (answerCall e sessionId options s)) k"
    by (rule bystander_listed)
next
  assume "listed s k \<and> k \<noteq> generateSessionId e \<and> wf_state s \<and>
    distinct (map fst (activeSessions s))"
  then show "listed (snd (makeCall e targetUri options s)) k"
    by (simp add: makeCall_listed)
next
  assume "listed s k"
  then show "listed (snd (onInvite e st ri s)) k" by (rule onInvite_listed)
next
  assume "listed s k \<and> k \<noteq> sessionId"
  then show "listed (onReject sessionId s) k" by (simp add: onReject_listed)
qed

theorem getActiveSessions_lists_store_witness:
  "(makeCall env0 ''bob'' audio_only s_init = (Inr sid0, s_calling) \<and>
    Terminated \<notin> set (fires (invite env0)) \<and> listed s_calling sid0 \<and>
    map_of (activeSessions s_init) sid0 = None \<and> snd (hangupCall env0 sid0 s_init) = s_init \<and>
    listed s_ringing sid0) \<and>
   (reachable_inv s_calling \<and> Terminated \<notin> set (map state_cs (getActiveSessions s_calling)) \<and>
    hangupCall env0 sid0 s_calling = (Inr (), snd (hangupCall env0 sid0 s_calling)) \<and>
    \<not> listed (snd (hangupCall env0 sid0 s_calling)) sid0 \<and>
    Established \<noteq> Terminated \<and>
    activeSessions (snd (stateTransition 0 Established s_calling)) = activeSessions s_calling) \<and>
   (isl (fst (hangupCall
                (env0\<lparr>cancel := \<lparr> handler = None, fires = [Terminating], rejects = True \<rparr>,
                        bye := \<lparr> handler = None, fires = [], rejects = True \<rparr>\<rparr>)
                sid0 s_calling)) \<and>
    activeSessions
      (snd (hangupCall
              (env0\<lparr>cancel := \<lparr> handler = None, fires = [Terminating], rejects = True \<rparr>,
                      bye := \<lparr> handler = None, fires = [], rejects = True \<rparr>\<rparr>)
              sid0 s_calling)) = activeSessions s_calling) \<and>
   (rejectCall env0 sid0 s_ringing = (Inr (), snd (rejectCall env0 sid0 s_ringing)) \<and>
    \<not> listed (snd (rejectCall env0 sid0 s_ringing)) sid0 \<and>
    Terminated \<notin> set (fires (accept env0)) \<and>
    activeSessions (snd (answerCall env0 sid0 audio_only s_ringing)) = activeSessions s_ringing) \<and>
   (isl (fst (rejectCall (env0\<lparr>reject := \<lparr> handler = None, fires = [], rejects = True \<rparr>\<rparr>)
                sid0 s_ringing)) \<and>
    activeSessions (snd (rejectCall (env0\<lparr>reject := \<lparr> handler = None, fires = [], rejects = True \<rparr>\<rparr>)
                           sid0 s_ringing)) = activeSessions s_ringing) \<and>
   (stateTransition 0 Terminated s_talking = (None, s_ended) \<and>
    wf_store (activeSessions s_talking) \<and> (sid0, 0) \<in> set (activeSessions s_talking) \<and>
    (\<exists>l \<in> set (stateChange (sessions s_talking 0)). removes sid0 l) \<and>
    \<not> listed s_ended sid0) \<and>
   (activeSessions s_both = [(sid0, 0), (sid1, 1)] \<and>
    bystander s_both sid1 0 \<and> map_of (activeSessions s_both) sid0 = Some 0 \<and>
    listed s_both sid1 \<and> sid1 \<noteq> sid0 \<and>
    listed (snd (stateTransition 0 Terminated s_both)) sid1 \<and>
    listed (snd (hangupCall env0 sid0 s_both)) sid1 \<and>
    listed (onReject sid0 s_both) sid1) \<and>
   (bystander s_both sid0 1 \<and> map_of (activeSessions s_both) sid1 = Some 1 \<and>
    listed (snd (rejectCall env0 sid1 s_both)) sid0 \<and>
    listed (snd (answerCall env0 sid1 audio_only s_both)) sid0) \<and>
   (listed s_ringing sid0 \<and> sid0 \<noteq> generateSessionId env1 \<and> wf_state s_ringing \<and>
    distinct (map fst (activeSessions s_ringing)) \<and>
    listed (snd (makeCall env1 ''bob'' audio_only s_ringing)) sid0 \<and>
    listed (snd (onInvite env1 Initial (Some ''sip:dave@example.com'') s_ringing)) sid0)"
proof (intro conjI)
  note t1 = getActiveSessions_lists_store
          [where s = s_init and e = env0 and st = Initial and
             u = "''sip:carol@example.com''" and ri = "Some ''sip:carol@example.com''" and
             targetUri = "''bob''" and options = audio_only and sessionId = sid0 and
             s' = s_calling and r = 0 and x = None and ns = Established and k = sid1 and
             tone = "''1''"]
  show mk: "makeCall env0 ''bob'' audio_only s_init = (Inr sid0, s_calling)"
    by (simp add: model_defs)
  show q: "Terminated \<notin> set (fires (invite env0))" by (simp add: model_defs)
  show u: "map_of (activeSessions s_init) sid0 = None" by (simp add: model_defs)
  from mk q t1 show "listed s_calling sid0" by (simp only: simp_thms)
  from u t1 show "snd (hangupCall env0 sid0 s_init) = s_init" by (simp only: simp_thms)
  from t1 have "listed (snd (onInvite env0 Initial (Some ''sip:carol@example.com'') s_init))
                  (generateSessionId env0)" by (simp only: simp_thms)
  then show "listed s_ringing sid0"
    by (simp add: s_ringing_def generateSessionId_def env0_def sid0_def)
next
  note t2 = getActiveSessions_lists_store
          [where s = s_calling and e = env0 and st = Initial and
             u = "''sip:carol@example.com''" and ri = "Some ''sip:carol@example.com''" and
             targetUri = "''bob''" and options = audio_only and sessionId = sid0 and
             s' = "snd (hangupCall env0 sid0 s_calling)" and r = 0 and x = None and
             ns = Established and k = sid1 and tone = "''1''"]
  show i: "reachable_inv s_calling" by (rule reachable_inv_s_calling)
  from t2 have "reachable_inv s_calling \<longrightarrow>
      Terminated \<notin> set (map state_cs (getActiveSessions s_calling))" by - (elim conjE, assumption)
  then show "Terminated \<notin> set (map state_cs (getActiveSessions s_calling))"
    using i by (rule mp)
  show h: "hangupCall env0 sid0 s_calling = (Inr (), snd (hangupCall env0 sid0 s_calling))"
    by (simp add: model_defs)
  from h t2 show "\<not> listed (snd (hangupCall env0 sid0 s_calling)) sid0" by (simp only: simp_thms)
  show ne: "Established \<noteq> Terminated" by simp
  from ne t2 show "activeSessions (snd (stateTransition 0 Established s_calling)) = activeSessions s_calling"
    by (simp only: simp_thms)
next
  let ?e = "env0\<lparr>cancel := \<lparr> handler = None, fires = [Terminating], rejects = True \<rparr>,
                  bye := \<lparr> handler = None, fires = [], rejects = True \<rparr>\<rparr>"
  note t3 = getActiveSessions_lists_store [where s = s_calling and e = "?e" and st = Initial and
             u = "''sip:carol@example.com''" and ri = "Some ''sip:carol@example.com''" and
             targetUri = "''bob''" and options = audio_only and sessionId = sid0 and
             s' = s_init and r = 0 and x = None and ns = Established and k = sid1 and
             tone = "''1''"]
  show f: "isl (fst (hangupCall ?e sid0 s_calling))" by (simp add: model_defs)
  have q: "Terminated \<notin> set (fires (cancel ?e))" "Terminated \<notin> set (fires (bye ?e))" by simp_all
  from f q t3 show "activeSessions (snd (hangupCall ?e sid0 s_calling)) = activeSessions s_calling"
    by (simp only: simp_thms)
next
  note t4 = getActiveSessions_lists_store
          [where s = s_ringing and e = env0 and st = Initial and
             u = "''sip:carol@example.com''" and ri = "Some ''sip:carol@example.com''" and
             targetUri = "''bob''" and options = audio_only and sessionId = sid0 and
             s' = "snd (rejectCall env0 sid0 s_ringing)" and r = 0 and x = None and
             ns = Established and k = sid1 and tone = "''1''"]
  show rj: "rejectCall env0 sid0 s_ringing = (Inr (), snd (rejectCall env0 sid0 s_ringing))"
    by (simp add: model_defs)
  show q: "Terminated \<notin> set (fires (accept env0))" by (simp add: model_defs)
  from rj t4 show "\<not> listed (snd (rejectCall env0 sid0 s_ringing)) sid0" by (simp only: simp_thms)
  from q t4 show "activeSessions (snd (answerCall env0 sid0 audio_only s_ringing)) = activeSessions s_ringing"
    by (simp only: simp_thms)
next
  let ?e = "env0\<lparr>reject := \<lparr> handler = None, fires = [], rejects = True \<rparr>\<rparr>"
  note t5 = getActiveSessions_lists_store [where s = s_ringing and e = "?e" and st = Initial and
             u = "''sip:carol@example.com''" and ri = "Some ''sip:carol@example.com''" and
             targetUri = "''bob''" and options = audio_only and sessionId = sid0 and
             s' = s_init and r = 0 and x = None and ns = Established and k = sid1 and
             tone = "''1''"]
  show f: "isl (fst (rejectCall ?e sid0 s_ringing))" by (simp add: model_defs)
  have q: "Terminated \<notin> set (fires (reject ?e))" by simp
  from f q t5 show "activeSessions (snd (rejectCall ?e sid0 s_ringing)) = activeSessions s_ringing"
    by (simp only: simp_thms)
next
  note t6 = getActiveSessions_lists_store
          [where s = s_talking and e = env0 and st = Initial and
             u = "''sip:carol@example.com''" and ri = "Some ''sip:carol@example.com''" and
             targetUri = "''bob''" and options = audio_only and sessionId = sid0 and
             s' = s_ended and r = 0 and x = None and ns = Established and k = sid1 and
             tone = "''1''"]
  show a: "stateTransition 0 Terminated s_talking = (None, s_ended)"
    by (simp add: model_defs)
  show b: "wf_store (activeSessions s_talking)" by (simp add: model_defs)
  show c: "(sid0, 0) \<in> set (activeSessions s_talking)" by (simp add: model_defs)
  show d: "\<exists>l \<in> set (stateChange (sessions s_talking 0)). removes sid0 l"
    by (simp add: model_defs)
  from a b c d t6 show "\<not> listed s_ended sid0" by (simp only: simp_thms)
next
  note t7 = getActiveSessions_lists_store
          [where s = s_both and e = env0 and st = Initial and
             u = "''sip:carol@example.com''" and ri = "Some ''sip:carol@example.com''" and
             targetUri = "''bob''" and options = audio_only and sessionId = sid0 and
             s' = s_init and r = 0 and x = None and ns = Terminated and k = sid1 and
             tone = "''1''"]
  show "activeSessions s_both = [(sid0, 0), (sid1, 1)]" by (simp add: model_defs)
  show b: "bystander s_both sid1 0" by (simp add: model_defs)
  show m: "map_of (activeSessions s_both) sid0 = Some 0" by (simp add: model_defs)
  show l: "listed s_both sid1" by (simp add: model_defs)
  show ne: "sid1 \<noteq> sid0" by (simp add: model_defs)
  from b t7 show "listed (snd (stateTransition 0 Terminated s_both)) sid1" by (simp only: simp_thms)
  from b m t7 show "listed (snd (hangupCall env0 sid0 s_both)) sid1" by (simp only: simp_thms)
  from l ne t7 show "listed (onReject sid0 s_both) sid1" by (simp only: simp_thms)
next
  note t8 = getActiveSessions_lists_store
          [where s = s_both and e = env0 and st = Initial and
             u = "''sip:carol@example.com''" and ri = "Some ''sip:carol@example.com''" and
             targetUri = "''bob''" and options = audio_only and sessionId = sid1 and
             s' = s_init and r = 1 and x = None and ns = Established and k = sid0 and
             tone = "''1''"]
  show b: "bystander s_both sid0 1" by (simp add: model_defs)
  show m: "map_of (activeSessions s_both) sid1 = Some 1" by (simp add: model_defs)
  from b m t8 show "listed (snd (rejectCall env0 sid1 s_both)) sid0" by (simp only: simp_thms)
  from b m t8 show "listed (snd (answerCall env0 sid1 audio_only s_both)) sid0" by (simp only: simp_thms)
next
  note t9 = getActiveSessions_lists_store
          [where s = s_ringing and e = env1 and st = Initial and
             u = "''sip:carol@example.com''" and ri = "Some ''sip:dave@example.com''" and
             targetUri = "''bob''" and options = audio_only and sessionId = sid0 and
             s' = s_init and r = 0 and x = None and ns = Established and k = sid0 and
             tone = "''1''"]
  show l: "listed s_ringing sid0" by (simp add: model_defs)
  show ne: "sid0 \<noteq> generateSessionId env1" by (simp add: model_defs)
  show wf: "wf_state s_ringing" by (simp add: model_defs)
  show d: "distinct (map fst (activeSessions s_ringing))" by (simp add: model_defs)
  from l ne wf d t9 show "listed (snd (makeCall env1 ''bob'' audio_only s_ringing)) sid0" by (simp only: simp_thms)
  from l t9 show "listed (snd (onInvite env1 Initial (Some ''sip:dave@example.com'') s_ringing)) sid0"
    by (simp only: simp_thms)
qed

text \<open>
  C7. Neither the arrival of an incoming call, nor its rejection, nor any state change
  the library announces acquires media: each of them leaves the number of
  \<^verbatim>\<open>getUserMedia\<close> calls as it was, and so does onInvite (which runs handleIncomingCall)
  followed by rejectCall.
\<close>

theorem rejectCall_no_media_acquisition:
  "acquire_count (snd (onInvite e1 st ri s)) = acquire_count s \<and>
   acquire_count (snd (rejectCall e2 sessionId s)) = acquire_count s \<and>
   acquire_count (snd (stateTransition r ns s)) = acquire_count s \<and>
   acquire_count (snd (rejectCall e2 sessionId (snd (onInvite e1 st ri s)))) = acquire_count s"
proof -
  have 1: "acquire_count (snd (onInvite e1 st ri s)) = acquire_count s"
    by (simp add: acquire_count_calls)
  have 2: "acquire_count (snd (rejectCall e2 sessionId s')) = acquire_count s'" for s'
    using calls_rejectCall [of e2 sessionId s'] by (auto simp: acquire_count_calls)
  have 3: "acquire_count (snd (stateTransition r ns s)) = acquire_count s"
    using calls_stateTransition [of r ns s] by (cases "stateTransition r ns s") (simp add: acquire_count_calls)
  from 1 2 3 show ?thesis by simp
qed

theorem rejectCall_no_media_acquisition_witness:
  "fst (rejectCall env0 sid0 s_ringing) = Inr () \<and>
   acquire_count s_ringing = 0 \<and>
   acquire_count (snd (rejectCall env0 sid0 s_ringing)) = 0"
  using rejectCall_no_media_acquisition
          [of env0 Initial "Some ''sip:carol@example.com''" s_init env0 sid0 0 Terminated]
  by (simp add: model_defs)

text \<open>
  C8, evaluated on the code. The switch of hangupCall looks at the session's state only.
  For the outgoing call to bob, Establishing, it sends \<^verbatim>\<open>cancel\<close>, and for an Established
  call \<^verbatim>\<open>bye\<close>. For the incoming call from carol, still ringing (Initial), it calls
  \<^verbatim>\<open>cancel\<close> as well, which an \<^verbatim>\<open>Invitation\<close> does not have: hangupCall throws, no signal has
  been sent and the session is still stored.
\<close>

theorem hangupCall_ringing_sends_nothing:
  "map_of (activeSessions s_ringing) sid0 = Some 0 \<and>
   cls (sessions s_ringing 0) = Invitation \<and> state (sessions s_ringing 0) = Initial \<and>
   fst (hangupCall env0 sid0 s_ringing) = Inl TypeError \<and>
   calls (snd (hangupCall env0 sid0 s_ringing)) = [] \<and>
   activeSessions (snd (hangupCall env0 sid0 s_ringing)) = [(sid0, 0)] \<and>
   state (sessions (snd (hangupCall env0 sid0 s_ringing)) 0) = Initial \<and>
   cls (sessions s_calling 0) = Inviter \<and> state (sessions s_calling 0) = Establishing \<and>
   calls (snd (hangupCall env0 sid0 s_calling)) = [GetUserMedia True False, Invite 0, Cancel 0] \<and>
   state (sessions s_talking 0) = Established \<and>
   calls (snd (hangupCall env0 sid0 s_talking)) = [GetUserMedia True False, Invite 0, Bye 0]"
  by (simp add: model_defs)


text \<open>
  C10 as stated fails. When the failing invite takes the session to Terminated before
  its promise rejects, the listener registered by setupSessionHandlers runs
  cleanupSession: makeCall throws, and the session is not stored any more.
\<close>

theorem makeCall_invite_failure_counterexample:
  "getUserMedia env_invite_fails = Some [mic] \<and>
   fst (makeCall env_invite_fails ''bob'' audio_only s_init) = Inl LibraryError \<and>
   calls (snd (makeCall env_invite_fails ''bob'' audio_only s_init))
     = [GetUserMedia True False, Invite 0] \<and>
   activeSessions (snd (makeCall env_invite_fails ''bob'' audio_only s_init)) = []"
  by (simp add: model_defs)

text \<open>
  C10 as amended. makeCall stores the session before it sends the offer. When media
  acquisition succeeds and the invite then fails, makeCall throws and the acquired local
  stream is not released: its tracks are as acquired (the stream is known to makeCall and
  to its listener only; the handler that the library installs holds a stream of the
  library's own). The session remains stored under the generated identifier when the
  failing invite has not announced Terminated. When it has announced Terminated (and not
  Established), cleanupSession has removed the session from the store by the time
  makeCall throws (the conditions on the store hold in every state the service reaches).
\<close>

theorem makeCall_invite_failure:
  assumes "userAgent s = Some ua" and "config s = Some cfg"
    and "makeURI e (''sip:'' @ targetUri @ ''@'' @ domain cfg) = Some target"
    and "getUserMedia e = Some ts"
    and "rejects (invite e)"
  shows "isl (fst (makeCall e targetUri options s)) \<and>
         ((case handler (invite e) of None \<Rightarrow> True
           | Some h \<Rightarrow> localMediaStream h \<noteq> Some (next_stream s)) \<longrightarrow>
            streams (snd (makeCall e targetUri options s)) (next_stream s) = ts) \<and>
         (Terminated \<notin> set (fires (invite e)) \<longrightarrow>
            activeSessions (snd (makeCall e targetUri options s)) =
              AList.update (generateSessionId e) (next_session s) (activeSessions s) \<and>
            streams (snd (makeCall e targetUri options s)) = (streams s)(next_stream s := ts)) \<and>
         (Terminated \<in> set (fires (invite e)) \<and> Established \<notin> set (fires (invite e)) \<and>
          wf_store (activeSessions s) \<and> next_session s \<notin> snd ` set (activeSessions s) \<longrightarrow>
            fst (makeCall e targetUri options s) = Inl LibraryError \<and>
            generateSessionId e \<notin> fst ` set (activeSessions (snd (makeCall e targetUri options s))))"
proof -
  let ?r = "next_session s" and ?sid = "generateSessionId e"
  define s5 where "s5 = inviting e target ts options s"
  have store: "activeSessions s5 = AList.update ?sid ?r (activeSessions s)"
    and strm: "streams s5 = (streams s)(next_stream s := ts)"
    and lst: "stateChange (sessions s5 ?r) = [SessionListener (Some (next_stream s))]"
    by (simp_all add: s5_def inviting_simps)
  have ap: "apart s5 ?r m" for m unfolding s5_def by (rule apart_inviting)
  have mk: "makeCall e targetUri options s =
                (case library_call (invite e) ?r s5 of
                   (Some err, s6) \<Rightarrow> (Inl err, s6)
                 | (None, s6) \<Rightarrow> (Inr ?sid, s6))"
    unfolding s5_def by (rule makeCall_unfold [OF assms(1-4)])
  obtain x s6 where lc: "library_call (invite e) ?r s5 = (x, s6)"
    by (cases "library_call (invite e) ?r s5")
  from library_call_rejects [OF assms(5) lc] obtain err where x: "x = Some err" by auto
  from mk lc x have res: "makeCall e targetUri options s = (Inl err, s6)" by simp
  show ?thesis
  proof (intro conjI impI)
    show "isl (fst (makeCall e targetUri options s))" by (simp add: res)
  next
    assume h: "case handler (invite e) of None \<Rightarrow> True
           | Some h \<Rightarrow> localMediaStream h \<noteq> Some (next_stream s)"
    then have "case handler (invite e) of None \<Rightarrow> apart s5 ?r (next_stream s)
           | Some h \<Rightarrow> localMediaStream h \<noteq> Some (next_stream s)"
      using ap by (simp split: option.splits)
    from streams_library_call [OF lc this] strm
    show "streams (snd (makeCall e targetUri options s)) (next_stream s) = ts"
      by (simp add: res)
  next
    assume quiet: "Terminated \<notin> set (fires (invite e))"
    note q = library_call_quiet [OF quiet lc]
    show "activeSessions (snd (makeCall e targetUri options s)) =
            AList.update ?sid ?r (activeSessions s)"
      using q store by (simp add: res)
    show "streams (snd (makeCall e targetUri options s)) = (streams s)(next_stream s := ts)"
      using q strm by (simp add: res)
  next
    assume a: "Terminated \<in> set (fires (invite e)) \<and> Established \<notin> set (fires (invite e)) \<and>
          wf_store (activeSessions s) \<and> next_session s \<notin> snd ` set (activeSessions s)"
    let ?s0 = "install_handler ?r (handler (invite e)) s5"
    have sid: "?sid \<noteq> []" by (simp add: generateSessionId_def)
    have store0: "activeSessions ?s0 = activeSessions s5"
      and lst0: "stateChange (sessions ?s0 ?r) = stateChange (sessions s5 ?r)"
      by (simp_all add: install_handler_def split: option.splits)
    from a sid have "wf_store (AList.update ?sid ?r (activeSessions s))"
      by (simp add: wf_store_update)
    then have t: "tracked ?sid ?r (activeSessions ?s0)"
      by (simp add: tracked_def store0 store mem_update)
    have l: "\<exists>l \<in> set (stateChange (sessions ?s0 ?r)). removes ?sid l"
      by (simp add: lst0 lst)
    obtain y s' where tr: "transitions ?r (fires (invite e)) ?s0 = (y, s')"
      by (cases "transitions ?r (fires (invite e)) ?s0")
    from a have ne: "Established \<notin> set (fires (invite e))" by simp
    from transitions_tracked [OF tr ne t l] a
    have y: "y = None" and gone: "?sid \<notin> fst ` set (activeSessions s')" by simp_all
    from lc tr y assms(5) have "x = Some LibraryError" and "s6 = s'"
      by (simp_all add: library_call_def)
    with x gone res
    show "fst (makeCall e targetUri options s) = Inl LibraryError"
      and "?sid \<notin> fst ` set (activeSessions (snd (makeCall e targetUri options s)))"
      by simp_all
  qed
qed

theorem makeCall_invite_failure_witness:
  "userAgent s_init = Some Stopped \<and> config s_init = Some cfg0 \<and>
   getUserMedia env_invite_rejects = Some [mic] \<and> rejects (invite env_invite_rejects) \<and>
   Terminated \<notin> set (fires (invite env_invite_rejects)) \<and>
   isl (fst (makeCall env_invite_rejects ''bob'' audio_only s_init)) \<and>
   activeSessions (snd (makeCall env_invite_rejects ''bob'' audio_only s_init)) = [(sid0, 0)] \<and>
   streams (snd (makeCall env_invite_rejects ''bob'' audio_only s_init)) 0 = [mic] \<and>
   rejects (invite env_invite_fails) \<and> Terminated \<in> set (fires (invite env_invite_fails)) \<and>
   Established \<notin> set (fires (invite env_invite_fails)) \<and>
   wf_store (activeSessions s_init) \<and> next_session s_init \<notin> snd ` set (activeSessions s_init) \<and>
   fst (makeCall env_invite_fails ''bob'' audio_only s_init) = Inl LibraryError \<and>
   sid0 \<notin> fst ` set (activeSessions (snd (makeCall env_invite_fails ''bob'' audio_only s_init))) \<and>
   streams (snd (makeCall env_invite_fails ''bob'' audio_only s_init)) 0 = [mic] \<and>
   handler (invite (env0\<lparr>invite := \<lparr> handler = Some sdh0, fires = [Establishing, Terminated],
                                       rejects = True \<rparr>\<rparr>)) = Some sdh0 \<and>
   localMediaStream sdh0 \<noteq> Some (next_stream s_init) \<and>
   fst (makeCall (env0\<lparr>invite := \<lparr> handler = Some sdh0, fires = [Establishing, Terminated],
                                     rejects = True \<rparr>\<rparr>) ''bob'' audio_only s_init)
     = Inl LibraryError \<and>
   streams (snd (makeCall (env0\<lparr>invite := \<lparr> handler = Some sdh0, fires = [Establishing, Terminated],
                                          rejects = True \<rparr>\<rparr>) ''bob'' audio_only s_init)) 0
     = [mic]"
  using makeCall_invite_failure
          [of s_init Stopped cfg0 env_invite_rejects "''bob''" "''sip:bob@example.com''" "[mic]" audio_only]
        makeCall_invite_failure
          [of s_init Stopped cfg0 env_invite_fails "''bob''" "''sip:bob@example.com''" "[mic]" audio_only]
        makeCall_invite_failure
          [of s_init Stopped cfg0
              "env0\<lparr>invite := \<lparr> handler = Some sdh0, fires = [Establishing, Terminated],
                                  rejects = True \<rparr>\<rparr>"
              "''bob''" "''sip:bob@example.com''" "[mic]" audio_only]
  by (simp add: model_defs)

end
